theory Spec2Isabelle
  imports Complex_Main
begin

section \<open>Data model\<close>

text \<open>
  The engine of \<^verbatim>\<open>src/composables/useTutorial.ts\<close> as a state-passing model.
  Host code (step callbacks, configuration callbacks, handlers subscribed with
  \<^verbatim>\<open>on\<close>) is opaque to the engine: a host function is a label together with the
  information whether the call throws. Calling it leaves an entry in the trace and does
  not re-enter the engine. Fields of a step or configuration that the composable never
  reads (title, description, blockInteractions, allowSkipTo, popoverClass, showProgress,
  allowClose) are left out.
\<close>

datatype placement = Top | Bottom | Left | Right | Center

datatype hostfn = HostFn (fn_label: nat) (fn_throws: bool)

datatype exn = HostError nat | RangeError

datatype outcome = Returned | Threw exn

datatype cbkind = OnEnter | OnExit | OnComplete | OnClose

record wait_spec =
  wa_event :: string
  wa_timeout :: "int option"

record TutorialStep =
  step_id :: string
  target :: "string option"
  placement :: "placement option"
  waitForAction :: "wait_spec option"
  onEnter :: "hostfn option"
  onExit :: "hostfn option"

record TutorialConfig =
  cfg_id :: string
  steps :: "TutorialStep list"
  onComplete :: "hostfn option"
  onClose :: "hostfn option"

text \<open>The three coordinates of a DOMRect that the composable reads.\<close>

record rect =
  r_top :: rat
  r_bottom :: rat
  r_height :: rat

text \<open>
  A subscriber on the event bus is either a host function or the closure that
  \<^verbatim>\<open>setupActionListener\<close> creates; the closure has an identity of its own (a fresh
  number) and captures the event name.
\<close>

datatype handler = HostHandler hostfn | ActionHandler nat string

datatype payload =
    NoData
  | StepChange TutorialStep int
  | ActionCompleted string
  | HostData nat

text \<open>
  The trace records, in order, what the engine did to the outside: every call of
  \<^verbatim>\<open>emit\<close>, every host handler and callback it invoked, every scroll request.
\<close>

datatype effect =
    Emitted string payload
  | Invoked hostfn payload
  | Called cbkind hostfn
  | ScrollTo rat

datatype timer_cb = RectTimer | GateTimer string handler

record state =
  config :: "TutorialConfig option"
  currentStepIndex :: int
  isActive :: bool
  isWaitingForAction :: bool
  targetRect :: "rect option"
  currentActionHandler :: "(string \<times> handler) option"
  eventBus :: "string \<rightharpoonup> handler list"
  localStorage :: "string \<rightharpoonup> string"
  timers :: "(int \<times> timer_cb) list"
  dom :: "string \<Rightarrow> rect option"
  viewportHeight :: rat
  scrollY :: rat
  nextId :: nat
  trace :: "effect list"
  console :: "string list"

section \<open>Derived values\<close>

definition nth_opt :: "'a list \<Rightarrow> int \<Rightarrow> 'a option" where
  "nth_opt xs i = (if 0 \<le> i \<and> nat i < length xs then Some (xs ! nat i) else None)"

definition currentStep :: "state \<Rightarrow> TutorialStep option" where
  "currentStep s =
     (case config s of
        None \<Rightarrow> None
      | Some c \<Rightarrow> if currentStepIndex s < 0 then None
                  else nth_opt (steps c) (currentStepIndex s))"

definition totalSteps :: "state \<Rightarrow> int" where
  "totalSteps s = (case config s of None \<Rightarrow> 0 | Some c \<Rightarrow> int (length (steps c)))"

definition progress :: "state \<Rightarrow> rat" where
  "progress s =
     (if totalSteps s = 0 then 0
      else (of_int (currentStepIndex s + 1) / of_int (totalSteps s)) * 100)"

definition canGoNext :: "state \<Rightarrow> bool" where
  "canGoNext s =
     (if isWaitingForAction s then False
      else currentStepIndex s < totalSteps s - 1)"

definition canGoPrevious :: "state \<Rightarrow> bool" where
  "canGoPrevious s = (currentStepIndex s > 0)"

section \<open>Event bus\<close>

definition on :: "string \<Rightarrow> handler \<Rightarrow> state \<Rightarrow> state" where
  "on ev h s =
     (case eventBus s ev of
        None \<Rightarrow> s\<lparr>eventBus := (eventBus s)(ev \<mapsto> [h])\<rparr>
      | Some hs \<Rightarrow>
          s\<lparr>eventBus := (eventBus s)(ev \<mapsto> (if h \<in> set hs then hs else hs @ [h]))\<rparr>)"

definition off :: "string \<Rightarrow> handler \<Rightarrow> state \<Rightarrow> state" where
  "off ev h s =
     (case eventBus s ev of
        None \<Rightarrow> s
      | Some hs \<Rightarrow> s\<lparr>eventBus := (eventBus s)(ev \<mapsto> removeAll h hs)\<rparr>)"

definition registered :: "state \<Rightarrow> string \<Rightarrow> handler list" where
  "registered s ev = (case eventBus s ev of None \<Rightarrow> [] | Some hs \<Rightarrow> hs)"

text \<open>
  \<^verbatim>\<open>emit\<close>, the iteration \<^verbatim>\<open>handlers.forEach(handler => handler(data))\<close> and the call
  of one handler. The list given to \<open>forEach\<close> is the set's content when the iteration
  starts; a handler that was deleted from the set before its turn is skipped, as
  \<^verbatim>\<open>Set.prototype.forEach\<close> does (nothing in the model adds a handler during a
  dispatch). A handler that throws ends the iteration. The closure of
  \<^verbatim>\<open>setupActionListener\<close> clears the waiting flag, emits
  \<^verbatim>\<open>tutorial:action-completed\<close>, and only then deregisters itself. The first argument
  is the depth of nested \<^verbatim>\<open>emit\<close> calls that the call stack still allows: when it is
  used up, the nested call throws a RangeError.
\<close>

function emit :: "nat \<Rightarrow> string \<Rightarrow> payload \<Rightarrow> state \<Rightarrow> outcome \<times> state"
  and forEach :: "nat \<Rightarrow> string \<Rightarrow> payload \<Rightarrow> handler list \<Rightarrow> state \<Rightarrow> outcome \<times> state"
  and invoke :: "nat \<Rightarrow> payload \<Rightarrow> handler \<Rightarrow> state \<Rightarrow> outcome \<times> state"
where
  "emit d ev data s =
     forEach d ev data (registered s ev) (s\<lparr>trace := trace s @ [Emitted ev data]\<rparr>)"
| "forEach d ev data [] s = (Returned, s)"
| "forEach d ev data (h # hs) s =
     (if h \<notin> set (registered s ev) then forEach d ev data hs s
      else
        (case invoke d data h s of
           (Threw x, s') \<Rightarrow> (Threw x, s')
         | (Returned, s') \<Rightarrow> forEach d ev data hs s'))"
| "invoke d data (HostHandler f) s =
     (if fn_throws f then Threw (HostError (fn_label f)) else Returned,
      s\<lparr>trace := trace s @ [Invoked f data]\<rparr>)"
| "invoke 0 data (ActionHandler i eventName) s =
     (Threw RangeError, s\<lparr>isWaitingForAction := False\<rparr>)"
| "invoke (Suc d) data (ActionHandler i eventName) s =
     (case emit d ''tutorial:action-completed'' (ActionCompleted eventName)
             (s\<lparr>isWaitingForAction := False\<rparr>) of
        (Threw x, s') \<Rightarrow> (Threw x, s')
      | (Returned, s') \<Rightarrow>
          (Returned,
           (off eventName (ActionHandler i eventName) s')\<lparr>currentActionHandler := None\<rparr>))"
  by pat_completeness auto
termination
  by (relation "inv_image (less_than <*lex*> less_than <*lex*> less_than)
        (\<lambda>x. case x of
           Inl (d, ev, data, s) \<Rightarrow> (d, 2::nat, 0::nat)
         | Inr (Inl (d, ev, data, hs, s)) \<Rightarrow> (d, 1, length hs)
         | Inr (Inr (d, data, h, s)) \<Rightarrow> (d, 0, 0))") auto

section \<open>Target rectangle, scrolling, timers\<close>

text \<open>
  \<^verbatim>\<open>document.querySelector(sel)\<close> followed by \<^verbatim>\<open>getBoundingClientRect()\<close> is the
  function \<open>dom\<close> of the state (selectors are taken to be syntactically valid). A
  string is falsy in JavaScript exactly when it is empty, a number exactly when it is 0.
\<close>

definition updateTargetRect :: "state \<Rightarrow> state" where
  "updateTargetRect s =
     (case currentStep s of
        None \<Rightarrow> s\<lparr>targetRect := None\<rparr>
      | Some st \<Rightarrow>
          (case target st of
             None \<Rightarrow> s\<lparr>targetRect := None\<rparr>
           | Some sel \<Rightarrow>
               if sel = [] then s\<lparr>targetRect := None\<rparr>
               else s\<lparr>targetRect := dom s sel\<rparr>))"

definition scrollElementIntoView :: "rect \<Rightarrow> placement \<Rightarrow> state \<Rightarrow> state" where
  "scrollElementIntoView r p s =
     (let margin = 150;
          (needsScroll, targetScrollY) =
            (if p = Top then
               (if r_top r < margin then (True, scrollY s + r_top r - margin)
                else (False, scrollY s))
             else if p = Bottom then
               (if r_bottom r > viewportHeight s - margin
                then (True, scrollY s + (r_bottom r - viewportHeight s + margin))
                else (False, scrollY s))
             else if p = Left \<or> p = Right then
               (let elementCenter = r_top r + r_height r / 2;
                    viewportCenter = viewportHeight s / 2
                in if \<bar>elementCenter - viewportCenter\<bar> > 100
                   then (True, scrollY s + (elementCenter - viewportCenter))
                   else (False, scrollY s))
             else (False, scrollY s))
      in if needsScroll
         then s\<lparr>trace := trace s @ [ScrollTo targetScrollY],
                timers := timers s @ [(350, RectTimer)]\<rparr>
         else s)"

definition setupActionListener :: "string \<Rightarrow> int option \<Rightarrow> state \<Rightarrow> state" where
  "setupActionListener eventName tmo s =
     (let handler = ActionHandler (nextId s) eventName;
          s1 = on eventName handler (s\<lparr>nextId := Suc (nextId s)\<rparr>);
          s2 = s1\<lparr>currentActionHandler := Some (eventName, handler)\<rparr>
      in case tmo of
           None \<Rightarrow> s2
         | Some t \<Rightarrow>
             if t = 0 then s2
             else s2\<lparr>timers := timers s2 @ [(t, GateTimer eventName handler)]\<rparr>)"

text \<open>The two timer callbacks of the composable, and the firing of a pending timer.\<close>

definition runTimer :: "timer_cb \<Rightarrow> state \<Rightarrow> state" where
  "runTimer cb s =
     (case cb of
        RectTimer \<Rightarrow> updateTargetRect s
      | GateTimer eventName handler \<Rightarrow>
          if isWaitingForAction s
          then (off eventName handler (s\<lparr>isWaitingForAction := False\<rparr>))
                 \<lparr>currentActionHandler := None\<rparr>
          else s)"

definition fireTimer :: "nat \<Rightarrow> state \<Rightarrow> state" where
  "fireTimer k s =
     (if k < length (timers s)
      then runTimer (snd (timers s ! k))
             (s\<lparr>timers := take k (timers s) @ drop (Suc k) (timers s)\<rparr>)
      else s)"

section \<open>Engine operations\<close>

definition andThen ::
  "outcome \<times> state \<Rightarrow> (state \<Rightarrow> outcome \<times> state) \<Rightarrow> outcome \<times> state" where
  "andThen r k = (case r of (Returned, s) \<Rightarrow> k s | (Threw x, s) \<Rightarrow> (Threw x, s))"

definition call :: "cbkind \<Rightarrow> hostfn option \<Rightarrow> state \<Rightarrow> outcome \<times> state" where
  "call kind cb s =
     (case cb of
        None \<Rightarrow> (Returned, s)
      | Some f \<Rightarrow>
          (if fn_throws f then Threw (HostError (fn_label f)) else Returned,
           s\<lparr>trace := trace s @ [Called kind f]\<rparr>))"

definition cleanupActionListener :: "state \<Rightarrow> state" where
  "cleanupActionListener s =
     (case currentActionHandler s of
        None \<Rightarrow> s
      | Some (ev, h) \<Rightarrow> (off ev h s)\<lparr>currentActionHandler := None\<rparr>)"

definition enterStep :: "nat \<Rightarrow> TutorialStep \<Rightarrow> int \<Rightarrow> state \<Rightarrow> outcome \<times> state" where
  "enterStep d step index s =
     (let s1 = s\<lparr>currentStepIndex := index, isWaitingForAction := False\<rparr>;
          s2 = updateTargetRect s1;
          s3 = (case target step of
                  None \<Rightarrow> s2
                | Some sel \<Rightarrow>
                    if sel = [] then s2
                    else (case dom s2 sel of
                            None \<Rightarrow> s2
                          | Some r \<Rightarrow>
                              scrollElementIntoView r
                                (case placement step of None \<Rightarrow> Bottom | Some p \<Rightarrow> p) s2))
      in andThen (call OnEnter (onEnter step) s3) (\<lambda>s4.
           let s5 = (case waitForAction step of
                       None \<Rightarrow> s4
                     | Some w \<Rightarrow>
                         setupActionListener (wa_event w) (wa_timeout w)
                           (s4\<lparr>isWaitingForAction := True\<rparr>))
           in emit d ''tutorial:step-change'' (StepChange step index) s5))"

definition goToStep :: "nat \<Rightarrow> int \<Rightarrow> state \<Rightarrow> outcome \<times> state" where
  "goToStep d index s =
     (case config s of
        None \<Rightarrow> (Returned, s)
      | Some c \<Rightarrow>
          (case nth_opt (steps c) index of
             None \<Rightarrow> (Returned, s)
           | Some step \<Rightarrow>
               (let s1 = cleanupActionListener s in
                andThen
                  (call OnExit (case currentStep s1 of None \<Rightarrow> None | Some cur \<Rightarrow> onExit cur) s1)
                  (enterStep d step index))))"

text \<open>
  \<^verbatim>\<open>goToStep\<close> is an async function: at \<^verbatim>\<open>await nextTick()\<close> it hands control back
  to its caller, and a caller that does not await it runs on before the rest of the body
  does. \<^verbatim>\<open>beforeTick\<close> is the body up to that point (\<^verbatim>\<open>None\<close> when it ends earlier, at
  one of the two guards or in a throwing \<^verbatim>\<open>onExit\<close>), \<^verbatim>\<open>afterTick\<close> the body from
  there on, for the step the first part read. Run one after the other they are
  \<^verbatim>\<open>goToStep\<close>.
\<close>

definition beforeTick :: "int \<Rightarrow> state \<Rightarrow> (TutorialStep \<times> state) option" where
  "beforeTick index s =
     (case config s of
        None \<Rightarrow> None
      | Some c \<Rightarrow>
          (case nth_opt (steps c) index of
             None \<Rightarrow> None
           | Some step \<Rightarrow>
               (let s1 = cleanupActionListener s in
                case call OnExit (case currentStep s1 of None \<Rightarrow> None | Some cur \<Rightarrow> onExit cur) s1 of
                  (Threw x, s2) \<Rightarrow> None
                | (Returned, s2) \<Rightarrow>
                    Some (step, s2\<lparr>currentStepIndex := index, isWaitingForAction := False\<rparr>))))"

definition afterTick :: "nat \<Rightarrow> TutorialStep \<Rightarrow> int \<Rightarrow> state \<Rightarrow> outcome \<times> state" where
  "afterTick d step index s1 =
     (let s2 = updateTargetRect s1;
          s3 = (case target step of
                  None \<Rightarrow> s2
                | Some sel \<Rightarrow>
                    if sel = [] then s2
                    else (case dom s2 sel of
                            None \<Rightarrow> s2
                          | Some r \<Rightarrow>
                              scrollElementIntoView r
                                (case placement step of None \<Rightarrow> Bottom | Some p \<Rightarrow> p) s2))
      in andThen (call OnEnter (onEnter step) s3) (\<lambda>s4.
           let s5 = (case waitForAction step of
                       None \<Rightarrow> s4
                     | Some w \<Rightarrow>
                         setupActionListener (wa_event w) (wa_timeout w)
                           (s4\<lparr>isWaitingForAction := True\<rparr>))
           in emit d ''tutorial:step-change'' (StepChange step index) s5))"

definition completedKey :: "string \<Rightarrow> string" where
  "completedKey tutorialId = ''tutorial:'' @ tutorialId @ '':completed''"

definition start :: "nat \<Rightarrow> TutorialConfig \<Rightarrow> state \<Rightarrow> outcome \<times> state" where
  "start d tutorialConfig s =
     (let s1 = s\<lparr>config := Some tutorialConfig, currentStepIndex := 0, isActive := True\<rparr>;
          completed = localStorage s1 (completedKey (cfg_id tutorialConfig));
          s2 = (if completed = Some ''true''
                then s1\<lparr>console := console s1 @
                         [''[Tutorial] '' @ [CHR 0x22] @ cfg_id tutorialConfig @ [CHR 0x22] @
                          '' already completed'']\<rparr>
                else s1)
      in andThen (emit d ''tutorial:start'' NoData s2) (goToStep d 0))"

text \<open>The operation \<^verbatim>\<open>next\<close> (the name is an Isar keyword).\<close>

definition next_step :: "nat \<Rightarrow> state \<Rightarrow> outcome \<times> state" where
  "next_step d s = (if \<not> canGoNext s then (Returned, s) else goToStep d (currentStepIndex s + 1) s)"

definition previous :: "nat \<Rightarrow> state \<Rightarrow> outcome \<times> state" where
  "previous d s =
     (if \<not> canGoPrevious s then (Returned, s) else goToStep d (currentStepIndex s - 1) s)"

fun findIndex :: "('a \<Rightarrow> bool) \<Rightarrow> 'a list \<Rightarrow> int" where
  "findIndex P [] = - 1"
| "findIndex P (x # xs) =
     (if P x then 0 else (let r = findIndex P xs in if r < 0 then - 1 else r + 1))"

definition skipTo :: "nat \<Rightarrow> string \<Rightarrow> state \<Rightarrow> outcome \<times> state" where
  "skipTo d stepId s =
     (case config s of
        None \<Rightarrow> (Returned, s)
      | Some c \<Rightarrow>
          (let index = findIndex (\<lambda>st. step_id st = stepId) (steps c) in
           if index \<ge> 0 then goToStep d index s else (Returned, s)))"

definition close :: "nat \<Rightarrow> state \<Rightarrow> outcome \<times> state" where
  "close d s =
     (case config s of
        None \<Rightarrow> (Returned, s)
      | Some c \<Rightarrow>
          andThen (emit d ''tutorial:close'' NoData (cleanupActionListener s)) (\<lambda>s1.
            andThen (call OnClose (case config s1 of None \<Rightarrow> None | Some c1 \<Rightarrow> onClose c1) s1)
              (\<lambda>s2. (Returned,
                 s2\<lparr>isActive := False, currentStepIndex := - 1, config := None,
                    targetRect := None, isWaitingForAction := False\<rparr>))))"

definition complete :: "nat \<Rightarrow> state \<Rightarrow> outcome \<times> state" where
  "complete d s =
     (case config s of
        None \<Rightarrow> (Returned, s)
      | Some c \<Rightarrow>
          (let s1 = s\<lparr>localStorage := (localStorage s)(completedKey (cfg_id c) \<mapsto> ''true'')\<rparr> in
           andThen (emit d ''tutorial:complete'' NoData s1) (\<lambda>s2.
             andThen
               (call OnComplete (case config s2 of None \<Rightarrow> None | Some c2 \<Rightarrow> onComplete c2) s2)
               (close d))))"

definition triggerAction :: "nat \<Rightarrow> string \<Rightarrow> payload \<Rightarrow> state \<Rightarrow> outcome \<times> state" where
  "triggerAction d actionName data s = emit d actionName data s"

definition isCompleted :: "state \<Rightarrow> string \<Rightarrow> bool" where
  "isCompleted s tutorialId = (localStorage s (completedKey tutorialId) = Some ''true'')"

definition resetCompletion :: "string \<Rightarrow> state \<Rightarrow> state" where
  "resetCompletion tutorialId s =
     s\<lparr>localStorage := (localStorage s)(completedKey tutorialId := None)\<rparr>"

section \<open>Sequences of operations\<close>

text \<open>
  What the host and the environment can do to one engine: the exported operations
  (each is run to its end before the next one starts, as the single-threaded contract
  asks of callers), the firing of a pending timer, and a change of the document or the
  viewport. A handler passed to \<^verbatim>\<open>on\<close> or \<^verbatim>\<open>off\<close> is a host function: the closure of
  \<^verbatim>\<open>setupActionListener\<close> never leaves the composable.
\<close>

datatype op =
    Start TutorialConfig
  | GoToStep int
  | Next
  | Previous
  | SkipTo string
  | Complete
  | Close
  | UpdateTargetRect
  | TriggerAction string payload
  | Emit string payload
  | On string hostfn
  | Off string hostfn
  | ResetCompletion string
  | FireTimer nat
  | Environment "string \<Rightarrow> rect option" rat rat

fun exec :: "nat \<Rightarrow> op \<Rightarrow> state \<Rightarrow> outcome \<times> state" where
  "exec d (Start c) s = start d c s"
| "exec d (GoToStep i) s = goToStep d i s"
| "exec d Next s = next_step d s"
| "exec d Previous s = previous d s"
| "exec d (SkipTo i) s = skipTo d i s"
| "exec d Complete s = complete d s"
| "exec d Close s = close d s"
| "exec d UpdateTargetRect s = (Returned, updateTargetRect s)"
| "exec d (TriggerAction n x) s = triggerAction d n x s"
| "exec d (Emit n x) s = emit d n x s"
| "exec d (On n f) s = (Returned, on n (HostHandler f) s)"
| "exec d (Off n f) s = (Returned, off n (HostHandler f) s)"
| "exec d (ResetCompletion i) s = (Returned, resetCompletion i s)"
| "exec d (FireTimer k) s = (Returned, fireTimer k s)"
| "exec d (Environment q vh sy) s =
     (Returned, s\<lparr>dom := q, viewportHeight := vh, scrollY := sy\<rparr>)"

text \<open>A thrown exception reaches the host; the engine's state stays as the throw left it.\<close>

fun run :: "nat \<Rightarrow> op list \<Rightarrow> state \<Rightarrow> state" where
  "run d [] s = s"
| "run d (x # xs) s = run d xs (snd (exec d x s))"

text \<open>
  A fresh engine: the refs of \<^verbatim>\<open>useTutorial\<close> at their initial values, an empty bus,
  no pending timer; the persistence store and the document are whatever the page has.
\<close>

definition initial :: "(string \<rightharpoonup> string) \<Rightarrow> (string \<Rightarrow> rect option) \<Rightarrow> rat \<Rightarrow> rat \<Rightarrow> state" where
  "initial store q vh sy =
     \<lparr>config = None, currentStepIndex = - 1, isActive = False, isWaitingForAction = False,
      targetRect = None, currentActionHandler = None, eventBus = Map.empty,
      localStorage = store, timers = [], dom = q, viewportHeight = vh, scrollY = sy,
      nextId = 0, trace = [], console = []\<rparr>"

section \<open>Auxiliary notions and example inputs\<close>

text \<open>
  What a dispatch leaves alone: every field but the trace, the waiting flag (which it can
  only clear), the tracked listener and the bus (from which it can only remove).
\<close>

definition frame :: "state \<Rightarrow> state \<Rightarrow> bool" where
  "frame s s' \<longleftrightarrow>
     config s' = config s \<and> currentStepIndex s' = currentStepIndex s \<and>
     isActive s' = isActive s \<and> targetRect s' = targetRect s \<and>
     localStorage s' = localStorage s \<and> timers s' = timers s \<and> dom s' = dom s \<and>
     viewportHeight s' = viewportHeight s \<and> scrollY s' = scrollY s \<and>
     nextId s' = nextId s \<and> console s' = console s \<and>
     (isWaitingForAction s' \<longrightarrow> isWaitingForAction s) \<and>
     (\<forall>ev. set (registered s' ev) \<subseteq> set (registered s ev))"

definition plainStep :: "string \<Rightarrow> TutorialStep" where
  "plainStep i =
     \<lparr>step_id = i, target = None, placement = None, waitForAction = None,
      onEnter = None, onExit = None\<rparr>"

definition tour :: "string \<Rightarrow> TutorialStep list \<Rightarrow> TutorialConfig" where
  "tour i sts = \<lparr>cfg_id = i, steps = sts, onComplete = None, onClose = None\<rparr>"

definition freshEngine :: state where
  "freshEngine = initial Map.empty Map.empty 800 0"

definition twoSubscribers :: state where
  "twoSubscribers =
     run 1 [On ''saved'' (HostFn 1 True), On ''saved'' (HostFn 2 False)] freshEngine"

definition threeSubscribers :: state where
  "threeSubscribers =
     run 1 [On ''saved'' (HostFn 3 False), On ''saved'' (HostFn 1 True),
            On ''saved'' (HostFn 2 False)] freshEngine"


definition fourSteps :: TutorialConfig where
  "fourSteps =
     tour ''test'' [plainStep ''step1'', plainStep ''step2'', plainStep ''step3'',
                    plainStep ''step4'']"

definition exitTour :: TutorialConfig where
  "exitTour =
     tour ''t'' [(plainStep ''a'')\<lparr>onEnter := Some (HostFn 8 False),
                                   onExit := Some (HostFn 7 False)\<rparr>]"

text \<open>
  The trace entries of the teardown path of \<^verbatim>\<open>close\<close>: the \<^verbatim>\<open>tutorial:close\<close> event
  and a call of an \<^verbatim>\<open>onClose\<close> callback.
\<close>

fun teardown_effect :: "effect \<Rightarrow> bool" where
  "teardown_effect (Emitted ev p) = (ev = ''tutorial:close'')"
| "teardown_effect (Called k f) = (k = OnClose)"
| "teardown_effect _ = False"

text \<open>What navigation leaves alone.\<close>

definition untouched :: "state \<Rightarrow> state \<Rightarrow> bool" where
  "untouched s s' \<longleftrightarrow>
     config s' = config s \<and> isActive s' = isActive s \<and>
     localStorage s' = localStorage s \<and> dom s' = dom s \<and>
     viewportHeight s' = viewportHeight s \<and> scrollY s' = scrollY s \<and>
     console s' = console s \<and>
     filter teardown_effect (trace s') = filter teardown_effect (trace s)"

text \<open>A handler that is a host function and returns normally.\<close>

fun peaceful :: "handler \<Rightarrow> bool" where
  "peaceful (HostHandler f) = (\<not> fn_throws f)"
| "peaceful (ActionHandler i e) = False"

text \<open>The values of the refs when no tour is running.\<close>

definition idle :: "state \<Rightarrow> bool" where
  "idle s \<longleftrightarrow>
     \<not> isActive s \<and> currentStepIndex s = - 1 \<and> currentStep s = None \<and>
     targetRect s = None \<and> \<not> isWaitingForAction s"

definition idle_inv :: "state \<Rightarrow> bool" where
  "idle_inv s \<longleftrightarrow> (config s = None \<longrightarrow> idle s)"

definition closableTour :: TutorialConfig where
  "closableTour =
     (tour ''a'' [plainStep ''a1'', plainStep ''a2''])\<lparr>onClose := Some (HostFn 9 False)\<rparr>"

definition otherTour :: TutorialConfig where
  "otherTour = tour ''b'' [plainStep ''b1'']"

definition gatedTour :: TutorialConfig where
  "gatedTour =
     tour ''g'' [(plainStep ''g1'')\<lparr>waitForAction :=
                    Some \<lparr>wa_event = ''clicked'', wa_timeout = None\<rparr>\<rparr>,
                 plainStep ''g2'']"

text \<open>
  A tour whose \<^verbatim>\<open>onClose\<close> callback throws; and the engine in the middle of a
  \<^verbatim>\<open>goToStep(0)\<close> on the running gated tour, the state at its \<^verbatim>\<open>await nextTick()\<close>.
\<close>

definition throwingCloseTour :: TutorialConfig where
  "throwingCloseTour = (tour ''c'' [plainStep ''c1''])\<lparr>onClose := Some (HostFn 9 True)\<rparr>"

definition suspended :: state where
  "suspended =
     (cleanupActionListener (run 1 [Start gatedTour] freshEngine))
       \<lparr>currentStepIndex := 0, isWaitingForAction := False\<rparr>"

text \<open>
  Two states that agree on everything but the persistence store and the console, and two
  results with the same outcome and such states; the outcomes of a sequence of operations.
\<close>

definition same_view :: "state \<Rightarrow> state \<Rightarrow> bool" where
  "same_view s t \<longleftrightarrow>
     config s = config t \<and> currentStepIndex s = currentStepIndex t \<and>
     isActive s = isActive t \<and> isWaitingForAction s = isWaitingForAction t \<and>
     targetRect s = targetRect t \<and> currentActionHandler s = currentActionHandler t \<and>
     eventBus s = eventBus t \<and> timers s = timers t \<and> dom s = dom t \<and>
     viewportHeight s = viewportHeight t \<and> scrollY s = scrollY t \<and>
     nextId s = nextId t \<and> trace s = trace t"

definition same_result :: "outcome \<times> state \<Rightarrow> outcome \<times> state \<Rightarrow> bool" where
  "same_result r r' \<longleftrightarrow> fst r = fst r' \<and> same_view (snd r) (snd r')"

fun outcomes :: "nat \<Rightarrow> op list \<Rightarrow> state \<Rightarrow> outcome list" where
  "outcomes d [] s = []"
| "outcomes d (x # xs) s = fst (exec d x s) # outcomes d xs (snd (exec d x s))"

definition completedStore :: "string \<rightharpoonup> string" where
  "completedStore = [completedKey ''a'' \<mapsto> ''true'']"

text \<open>Notions for the wait-for-action gate. A handler that is a host function:\<close>

fun is_host :: "handler \<Rightarrow> bool" where
  "is_host (HostHandler f) = True"
| "is_host (ActionHandler i e) = False"

text \<open>No closure of \<^verbatim>\<open>setupActionListener\<close> is on the bus; no fallback timer is pending.\<close>

definition hostsOnly :: "state \<Rightarrow> bool" where
  "hostsOnly s \<longleftrightarrow> (\<forall>ev. \<forall>h\<in>set (registered s ev). is_host h)"

definition rectTimersOnly :: "state \<Rightarrow> bool" where
  "rectTimersOnly s \<longleftrightarrow> (\<forall>tm\<in>set (timers s). snd tm = RectTimer)"

text \<open>
  Every closure on the bus is the one the engine tracks in \<^verbatim>\<open>currentActionHandler\<close>; a
  state is settled when, moreover, no fallback timer of an earlier step is pending.
\<close>

definition busSettled :: "state \<Rightarrow> bool" where
  "busSettled s \<longleftrightarrow>
     (\<forall>ev. \<forall>h\<in>set (registered s ev). is_host h \<or> currentActionHandler s = Some (ev, h))"

definition settled :: "state \<Rightarrow> bool" where
  "settled s \<longleftrightarrow> busSettled s \<and> rectTimersOnly s"

text \<open>The bus holds host functions only, and the next closure will be number \<open>n\<close>.\<close>

definition calm :: "nat \<Rightarrow> state \<Rightarrow> bool" where
  "calm n s \<longleftrightarrow> hostsOnly s \<and> nextId s = n"

text \<open>
  The gate of a step waiting for \<open>e\<close> is up: the flag is set, closure \<open>n\<close> is tracked and
  subscribed to \<open>e\<close>, and it is the only closure on the bus. It is gated when no fallback
  timer is pending either.
\<close>

definition listening :: "string \<Rightarrow> nat \<Rightarrow> state \<Rightarrow> bool" where
  "listening e n s \<longleftrightarrow>
     isWaitingForAction s \<and> currentActionHandler s = Some (e, ActionHandler n e) \<and>
     ActionHandler n e \<in> set (registered s e) \<and>
     (\<forall>ev. \<forall>h\<in>set (registered s ev). is_host h \<or> (ev = e \<and> h = ActionHandler n e))"

definition gated :: "string \<Rightarrow> nat \<Rightarrow> state \<Rightarrow> bool" where
  "gated e n s \<longleftrightarrow> listening e n s \<and> rectTimersOnly s"

text \<open>
  The operations that neither publish \<open>e\<close> nor navigate nor close: publishing another
  event, \<^verbatim>\<open>next\<close>, re-measuring, subscribing and unsubscribing host handlers, resetting a
  completion record, a timer firing, a change of the document.
\<close>

fun quiet_op :: "string \<Rightarrow> op \<Rightarrow> bool" where
  "quiet_op e (TriggerAction n p) = (n \<noteq> e)"
| "quiet_op e (Emit n p) = (n \<noteq> e)"
| "quiet_op e Next = True"
| "quiet_op e UpdateTargetRect = True"
| "quiet_op e (On n f) = True"
| "quiet_op e (Off n f) = True"
| "quiet_op e (ResetCompletion i) = True"
| "quiet_op e (FireTimer k) = True"
| "quiet_op e (Environment q vh sy) = True"
| "quiet_op e _ = False"

text \<open>The timers that entering a step adds: at most the re-measuring timer of a scroll,
  then the fallback of the gate when the step declares a timeout other than 0.\<close>

definition fallback :: "TutorialStep \<Rightarrow> nat \<Rightarrow> (int \<times> timer_cb) list" where
  "fallback st n =
     (case waitForAction st of
        None \<Rightarrow> []
      | Some w \<Rightarrow>
          (case wa_timeout w of
             None \<Rightarrow> []
           | Some t \<Rightarrow> if t = 0 then []
                       else [(t, GateTimer (wa_event w) (ActionHandler n (wa_event w)))]))"

text \<open>What a dispatch can only do: clear the flag, untrack, deregister, extend the trace.\<close>

definition advanced :: "state \<Rightarrow> state \<Rightarrow> bool" where
  "advanced s s' \<longleftrightarrow>
     (\<not> isWaitingForAction s \<longrightarrow> \<not> isWaitingForAction s') \<and>
     (currentActionHandler s = None \<longrightarrow> currentActionHandler s' = None) \<and>
     (\<forall>ev. set (registered s' ev) \<subseteq> set (registered s ev)) \<and>
     (\<exists>tr. trace s' = trace s @ tr)"

text \<open>
  The gate for \<open>e\<close> has been opened by its event since the trace had length \<open>l\<close>: flag
  cleared, nothing tracked, closure \<open>n\<close> deregistered, \<^verbatim>\<open>tutorial:action-completed\<close> emitted.
\<close>

definition opened :: "string \<Rightarrow> nat \<Rightarrow> nat \<Rightarrow> state \<Rightarrow> bool" where
  "opened e n l s' \<longleftrightarrow>
     \<not> isWaitingForAction s' \<and> currentActionHandler s' = None \<and>
     ActionHandler n e \<notin> set (registered s' e) \<and>
     Emitted ''tutorial:action-completed'' (ActionCompleted e) \<in> set (drop l (trace s'))"

text \<open>Example tours and operations for the gate.\<close>

definition stepChangeTour :: TutorialConfig where
  "stepChangeTour =
     tour ''s'' [(plainStep ''s1'')\<lparr>waitForAction :=
                    Some \<lparr>wa_event = ''tutorial:step-change'', wa_timeout = None\<rparr>\<rparr>,
                 plainStep ''s2'']"

definition lateGateTour :: "int option \<Rightarrow> TutorialConfig" where
  "lateGateTour tmo =
     tour ''w'' [plainStep ''w1'',
                 (plainStep ''w2'')\<lparr>waitForAction :=
                    Some \<lparr>wa_event = ''clicked'', wa_timeout = tmo\<rparr>\<rparr>,
                 plainStep ''w3'']"

definition bystanders :: "op list" where
  "bystanders =
     [On ''clicked'' (HostFn 4 False), TriggerAction ''saved'' NoData, Next,
      UpdateTargetRect, FireTimer 0, Off ''saved'' (HostFn 2 False)]"

definition staleTour :: "int option \<Rightarrow> TutorialConfig" where
  "staleTour tmo =
     tour ''z'' [(plainStep ''z1'')\<lparr>waitForAction :=
                    Some \<lparr>wa_event = ''first'', wa_timeout = Some 1000\<rparr>\<rparr>,
                 (plainStep ''z2'')\<lparr>waitForAction :=
                    Some \<lparr>wa_event = ''second'', wa_timeout = tmo\<rparr>\<rparr>,
                 plainStep ''z3'']"

section \<open>The event bus\<close>

lemma registered_upd [simp]:
  "registered (s\<lparr>trace := t\<rparr>) ev = registered s ev"
  "registered (s\<lparr>isWaitingForAction := w\<rparr>) ev = registered s ev"
  "registered (s\<lparr>currentActionHandler := c\<rparr>) ev = registered s ev"
  by (simp_all add: registered_def)

lemma registered_off:
  "registered (off e h s) ev = (if ev = e then removeAll h (registered s e) else registered s ev)"
  by (simp add: registered_def off_def split: option.splits)

text \<open>
  Whatever a dispatch does to the state is a sequence of four kinds of steps: a host
  handler's trace entry, the closure clearing the flag, the closure's own emit, and the
  closure deregistering itself. A relation closed under them holds between the state
  before and the state after.
\<close>

lemma dispatch_closure:
  assumes rf: "\<And>s. R s s"
    and tr: "\<And>s s1 s2. R s s1 \<Longrightarrow> R s1 s2 \<Longrightarrow> R s s2"
    and inv: "\<And>s f p. R s (s\<lparr>trace := trace s @ [Invoked f p]\<rparr>)"
    and clr: "\<And>s. R s (s\<lparr>isWaitingForAction := False\<rparr>)"
    and ac: "\<And>s e. R s (s\<lparr>trace := trace s @
                [Emitted ''tutorial:action-completed'' (ActionCompleted e)]\<rparr>)"
    and dereg: "\<And>s i e. R s ((off e (ActionHandler i e) s)\<lparr>currentActionHandler := None\<rparr>)"
  shows "R (s\<lparr>trace := trace s @ [Emitted ev data]\<rparr>) (snd (emit d ev data s))"
    and "R s (snd (forEach d ev data hs s))"
    and "R s (snd (invoke d data h s))"
proof (induction d ev data s and d ev data hs s and d data h s rule: emit_forEach_invoke.induct)
  case (1 d ev data s)
  then show ?case by simp
next
  case (2 d ev data s)
  show ?case by (simp add: rf)
next
  case (3 d ev data h hs s)
  show ?case
  proof (cases "h \<in> set (registered s ev)")
    case False
    with 3 show ?thesis by simp
  next
    case True
    obtain r s' where iv: "invoke d data h s = (r, s')" by (cases "invoke d data h s")
    with 3(2) True have f1: "R s s'" by simp
    show ?thesis
    proof (cases r)
      case Returned
      with 3(3)[OF _ iv[symmetric]] True have "R s' (snd (forEach d ev data hs s'))" by simp
      with Returned iv True show ?thesis using tr[OF f1] by simp
    next
      case (Threw x)
      with f1 iv True show ?thesis by simp
    qed
  qed
next
  case (4 d data f s)
  show ?case by (simp add: inv)
next
  case (5 data i eventName s)
  show ?case by (simp add: clr)
next
  case (6 d data i eventName s)
  let ?s1 = "s\<lparr>isWaitingForAction := False\<rparr>"
  let ?s2 = "?s1\<lparr>trace := trace ?s1 @
               [Emitted ''tutorial:action-completed'' (ActionCompleted eventName)]\<rparr>"
  obtain r s' where em: "emit d ''tutorial:action-completed'' (ActionCompleted eventName) ?s1 = (r, s')"
    by (cases "emit d ''tutorial:action-completed'' (ActionCompleted eventName) ?s1")
  from 6 em have "R ?s2 s'" by simp
  then have f1: "R s s'" using tr[OF clr[of s]] tr[OF ac[of ?s1 eventName]] by blast
  show ?case
  proof (cases r)
    case Returned
    with em show ?thesis
      using tr[OF f1 dereg[of s' eventName i]] by (simp del: emit.simps)
  next
    case (Threw x)
    with em f1 show ?thesis by (simp del: emit.simps)
  qed
qed

lemma frame_refl [simp]: "frame s s"
  by (simp add: frame_def)

lemma frame_trans: "frame s s1 \<Longrightarrow> frame s1 s2 \<Longrightarrow> frame s s2"
  unfolding frame_def by (metis subset_trans)

lemma frame_trace [simp]: "frame s (s\<lparr>trace := t\<rparr>)"
  by (simp add: frame_def)

lemma frame_waiting [simp]: "frame s (s\<lparr>isWaitingForAction := False\<rparr>)"
  by (simp add: frame_def)

lemma frame_off_cah: "frame s ((off e h s)\<lparr>currentActionHandler := None\<rparr>)"
  by (auto simp: frame_def registered_off) (simp_all add: off_def split: option.splits)

lemma forEach_frame: "frame s (snd (forEach d ev data hs s))"
  by (rule dispatch_closure(2)[where R = frame]) (auto intro: frame_trans frame_off_cah)

lemma emit_frame: "frame s (snd (emit d ev data s))"
  using forEach_frame[of "s\<lparr>trace := trace s @ [Emitted ev data]\<rparr>" d ev data "registered s ev"]
    frame_trans[OF frame_trace] by simp


lemma forEach_hosts_throw:
  "set (map HostHandler (fs @ g # gs)) \<subseteq> set (registered s ev) \<Longrightarrow>
   \<forall>f\<in>set fs. \<not> fn_throws f \<Longrightarrow> fn_throws g \<Longrightarrow>
   forEach d ev data (map HostHandler (fs @ g # gs)) s =
     (Threw (HostError (fn_label g)),
      s\<lparr>trace := trace s @ map (\<lambda>f. Invoked f data) (fs @ [g])\<rparr>)"
  by (induction fs arbitrary: s) auto

text \<open>
  C6 (as the code has it). \<^verbatim>\<open>emit\<close> has no failure isolation: when the handlers
  registered for an event are host functions, it calls them in registration order up to
  and including the first one that throws; that exception reaches the publisher, and the
  handlers registered after it are not called in this dispatch.
\<close>

theorem emit_stops_at_first_throw:
  assumes "registered s ev = map HostHandler (fs @ g # gs)"
    and "\<forall>f\<in>set fs. \<not> fn_throws f" and "fn_throws g"
  shows "emit d ev data s =
     (Threw (HostError (fn_label g)),
      s\<lparr>trace := trace s @ Emitted ev data # map (\<lambda>f. Invoked f data) (fs @ [g])\<rparr>)"
  using assms forEach_hosts_throw[of fs g gs "s\<lparr>trace := trace s @ [Emitted ev data]\<rparr>" ev d data]
  by simp

lemma threeSubscribers_registered:
  "registered threeSubscribers ''saved'' =
     map HostHandler ([HostFn 3 False] @ HostFn 1 True # [HostFn 2 False])"
  by (simp add: threeSubscribers_def freshEngine_def initial_def on_def registered_def)

theorem emit_stops_at_first_throw_witness:
  "registered threeSubscribers ''saved'' =
     map HostHandler ([HostFn 3 False] @ HostFn 1 True # [HostFn 2 False]) \<and>
   \<not> fn_throws (HostFn 3 False) \<and> fn_throws (HostFn 1 True) \<and>
   emit 1 ''saved'' NoData threeSubscribers =
     (Threw (HostError 1),
      threeSubscribers\<lparr>trace := trace threeSubscribers @
         [Emitted ''saved'' NoData, Invoked (HostFn 3 False) NoData,
          Invoked (HostFn 1 True) NoData]\<rparr>)"
  using emit_stops_at_first_throw[of threeSubscribers "''saved''" "[HostFn 3 False]"
      "HostFn 1 True" "[HostFn 2 False]" 1 NoData]
  by (simp add: threeSubscribers_registered)

text \<open>
  The claim C6 as stated fails: with a throwing handler registered before another one, a
  publish does not reach the second.
\<close>

theorem emit_isolation_counterexample:
  "registered twoSubscribers ''saved'' =
     [HostHandler (HostFn 1 True), HostHandler (HostFn 2 False)] \<and>
   Invoked (HostFn 2 False) NoData \<notin> set (trace (snd (emit 1 ''saved'' NoData twoSubscribers)))"
  by (simp add: twoSubscribers_def freshEngine_def initial_def on_def registered_def)

section \<open>Navigation\<close>

lemma untouched_refl [simp]: "untouched s s"
  by (simp add: untouched_def)

lemma untouched_trans: "untouched s s1 \<Longrightarrow> untouched s1 s2 \<Longrightarrow> untouched s s2"
  by (simp add: untouched_def)

lemma untouched_upd [simp]:
  "untouched s (s\<lparr>isWaitingForAction := w\<rparr>)"
  "untouched s (s\<lparr>currentActionHandler := a\<rparr>)"
  "untouched s (s\<lparr>eventBus := b\<rparr>)"
  "untouched s (s\<lparr>currentStepIndex := i\<rparr>)"
  "untouched s (s\<lparr>targetRect := r\<rparr>)"
  "untouched s (s\<lparr>timers := t\<rparr>)"
  "untouched s (s\<lparr>nextId := n\<rparr>)"
  "\<not> teardown_effect x \<Longrightarrow> untouched s (s\<lparr>trace := trace s @ [x]\<rparr>)"
  by (simp_all add: untouched_def)

lemma untouched_off [simp]: "untouched s (off e h s)"
  by (simp add: off_def split: option.splits)

lemma untouched_on [simp]: "untouched s (on e h s)"
  by (simp add: on_def split: option.splits)

lemma untouched_off_cah [simp]: "untouched s ((off e h s)\<lparr>currentActionHandler := a\<rparr>)"
  by (simp add: untouched_def off_def split: option.splits)

lemma untouched_step: "untouched s s1 \<Longrightarrow> untouched s1 s2 \<Longrightarrow> untouched s s2"
  by (rule untouched_trans)

lemma forEach_untouched: "untouched s (snd (forEach d ev data hs s))"
  by (rule dispatch_closure(2)[where R = untouched]) (auto intro: untouched_trans)

lemma emit_untouched:
  "ev \<noteq> ''tutorial:close'' \<Longrightarrow> untouched s (snd (emit d ev data s))"
  using forEach_untouched[of "s\<lparr>trace := trace s @ [Emitted ev data]\<rparr>" d ev data "registered s ev"]
    untouched_trans[OF untouched_upd(8)[of "Emitted ev data" s]] by simp

lemma call_untouched: "k \<noteq> OnClose \<Longrightarrow> untouched s (snd (call k cb s))"
  by (simp add: call_def split: option.splits)

lemma cleanup_untouched: "untouched s (cleanupActionListener s)"
  by (simp add: cleanupActionListener_def split: option.splits)

lemma updateTargetRect_untouched: "untouched s (updateTargetRect s)"
  by (simp add: updateTargetRect_def split: option.splits)

lemma scroll_untouched: "untouched s (scrollElementIntoView r p s)"
  by (simp add: scrollElementIntoView_def Let_def untouched_def split: prod.splits)

lemma setup_untouched: "untouched s (setupActionListener e t s)"
  by (simp add: setupActionListener_def Let_def untouched_def on_def split: option.splits)

lemma andThen_untouched:
  "untouched s (snd r) \<Longrightarrow> (\<And>s1. untouched s1 (snd (k s1))) \<Longrightarrow> untouched s (snd (andThen r k))"
  by (cases r) (auto simp: andThen_def split: outcome.splits intro: untouched_trans)

lemma enterStep_untouched: "untouched s (snd (enterStep d st i s))"
  unfolding enterStep_def Let_def
proof (rule andThen_untouched)
  let ?s1 = "s\<lparr>currentStepIndex := i, isWaitingForAction := False\<rparr>"
  let ?s2 = "updateTargetRect ?s1"
  let ?s3 = "(case target st of None \<Rightarrow> ?s2 | Some sel \<Rightarrow>
                if sel = [] then ?s2
                else (case dom ?s2 sel of None \<Rightarrow> ?s2
                      | Some r \<Rightarrow> scrollElementIntoView r
                           (case placement st of None \<Rightarrow> Bottom | Some p \<Rightarrow> p) ?s2))"
  have a: "untouched s ?s1" by (simp add: untouched_def)
  have b: "untouched ?s1 ?s2" by (rule updateTargetRect_untouched)
  have c: "untouched ?s2 ?s3" by (auto split: option.splits intro: scroll_untouched)
  have d: "untouched ?s3 (snd (call OnEnter (onEnter st) ?s3))" by (rule call_untouched) simp
  show "untouched s (snd (call OnEnter (onEnter st) ?s3))"
    using a b c d by (blast intro: untouched_trans)
next
  fix s1
  let ?s5 = "(case waitForAction st of None \<Rightarrow> s1
             | Some w \<Rightarrow> setupActionListener (wa_event w) (wa_timeout w)
                           (s1\<lparr>isWaitingForAction := True\<rparr>))"
  have a: "untouched s1 ?s5"
    by (auto split: option.splits intro: untouched_trans[OF _ setup_untouched])
  have "untouched ?s5 (snd (emit d ''tutorial:step-change'' (StepChange st i) ?s5))"
    by (rule emit_untouched) simp
  with a show "untouched s1 (snd (emit d ''tutorial:step-change'' (StepChange st i) ?s5))"
    by (rule untouched_trans)
qed

lemma goToStep_untouched: "untouched s (snd (goToStep d i s))"
proof (cases "config s")
  case None
  then show ?thesis by (simp add: goToStep_def)
next
  case (Some c)
  show ?thesis
  proof (cases "nth_opt (steps c) i")
    case None
    with Some show ?thesis by (simp add: goToStep_def)
  next
    case (Some st)
    let ?s1 = "cleanupActionListener s"
    let ?cb = "case currentStep ?s1 of None \<Rightarrow> None | Some cur \<Rightarrow> onExit cur"
    have "untouched ?s1 (snd (call OnExit ?cb ?s1))" by (rule call_untouched) simp
    then have "untouched s (snd (call OnExit ?cb ?s1))"
      by (rule untouched_trans[OF cleanup_untouched])
    then have "untouched s (snd (andThen (call OnExit ?cb ?s1) (enterStep d st i)))"
      by (rule andThen_untouched) (rule enterStep_untouched)
    with Some \<open>config s = Some c\<close> show ?thesis by (simp add: goToStep_def Let_def)
  qed
qed


lemmas engine_defs =
  start_def goToStep_def enterStep_def andThen_def call_def cleanupActionListener_def
  updateTargetRect_def currentStep_def nth_opt_def registered_def Let_def
  setupActionListener_def on_def off_def close_def complete_def

lemmas example_defs =
  exitTour_def tour_def plainStep_def freshEngine_def initial_def closableTour_def otherTour_def

text \<open>
  C3 (the code at a concrete input). \<^verbatim>\<open>start\<close> sets the step index to 0, not to -1,
  before \<^verbatim>\<open>goToStep(0)\<close>: the first step is then the current step, and its \<^verbatim>\<open>onExit\<close>
  callback is called during \<^verbatim>\<open>start\<close>, before its \<^verbatim>\<open>onEnter\<close>.
\<close>

theorem start_calls_onExit_of_first_step:
  "trace (snd (start 2 exitTour freshEngine)) =
     [Emitted ''tutorial:start'' NoData,
      Called OnExit (HostFn 7 False),
      Called OnEnter (HostFn 8 False),
      Emitted ''tutorial:step-change'' (StepChange (hd (steps exitTour)) 0)]"
  by (simp add: engine_defs example_defs)

text \<open>
  The claim C2 as stated fails: starting a second tour over an active one emits no
  \<^verbatim>\<open>tutorial:close\<close> and does not call the first tour's \<^verbatim>\<open>onClose\<close>.
\<close>

theorem start_over_active_counterexample:
  "config (snd (start 2 closableTour freshEngine)) = Some closableTour \<and>
   isActive (snd (start 2 closableTour freshEngine)) \<and>
   config (snd (start 2 otherTour (snd (start 2 closableTour freshEngine)))) = Some otherTour \<and>
   Emitted ''tutorial:close'' NoData \<notin>
     set (trace (snd (start 2 otherTour (snd (start 2 closableTour freshEngine))))) \<and>
   Called OnClose (HostFn 9 False) \<notin>
     set (trace (snd (start 2 otherTour (snd (start 2 closableTour freshEngine)))))"
  by (simp add: engine_defs example_defs)



lemma forEach_peaceful:
  "\<forall>h\<in>set hs. peaceful h \<Longrightarrow> fst (forEach d ev data hs s) = Returned"
proof (induction hs arbitrary: s)
  case Nil
  then show ?case by simp
next
  case (Cons h hs)
  then show ?case by (cases h) auto
qed

lemma emit_peaceful:
  "\<forall>h\<in>set (registered s ev). peaceful h \<Longrightarrow> fst (emit d ev data s) = Returned"
  by (simp add: forEach_peaceful)


lemma goToStep_no_config: "config s = None \<Longrightarrow> goToStep d i s = (Returned, s)"
  by (simp add: goToStep_def)

lemma start_untouched:
  "untouched
     (s\<lparr>config := Some c, currentStepIndex := 0, isActive := True,
        console := console (snd (start d c s))\<rparr>)
     (snd (start d c s))"
proof -
  let ?s1 = "s\<lparr>config := Some c, currentStepIndex := 0, isActive := True\<rparr>"
  let ?s2 = "if localStorage ?s1 (completedKey (cfg_id c)) = Some ''true''
             then ?s1\<lparr>console := console ?s1 @
                    [''[Tutorial] '' @ [CHR 0x22] @ cfg_id c @ [CHR 0x22] @ '' already completed'']\<rparr>
             else ?s1"
  have st: "start d c s = andThen (emit d ''tutorial:start'' NoData ?s2) (goToStep d 0)"
    by (simp add: start_def Let_def)
  have "untouched ?s2 (snd (emit d ''tutorial:start'' NoData ?s2))"
    by (rule emit_untouched) simp
  then have u: "untouched ?s2 (snd (start d c s))"
    unfolding st by (rule andThen_untouched) (rule goToStep_untouched)
  then have "console (snd (start d c s)) = console ?s2" by (simp add: untouched_def)
  then have "?s1\<lparr>console := console (snd (start d c s))\<rparr> = ?s2" by simp
  with u show ?thesis by simp
qed

lemma start_result:
  "config (snd (start d c s)) = Some c"
  "isActive (snd (start d c s))"
  "localStorage (snd (start d c s)) = localStorage s"
  "filter teardown_effect (trace (snd (start d c s))) = filter teardown_effect (trace s)"
  using start_untouched[where s = s and c = c and d = d] by (simp_all add: untouched_def)







text \<open>
  C2 (as the code has it). \<^verbatim>\<open>start\<close> replaces whatever configuration is active
  without the teardown of \<^verbatim>\<open>close\<close>: while it runs, no \<^verbatim>\<open>tutorial:close\<close> is emitted and
  no \<^verbatim>\<open>onClose\<close> callback is called. Afterwards the new configuration is the engine's
  configuration (the engine has one slot for it) and the engine is active.
\<close>

theorem start_replaces_without_teardown:
  "config (snd (start d b s)) = Some b \<and> isActive (snd (start d b s)) \<and>
   filter teardown_effect (trace (snd (start d b s))) = filter teardown_effect (trace s)"
  by (simp add: start_result)


theorem start_replaces_without_teardown_witness:
  "config (snd (start 2 otherTour (snd (start 2 closableTour freshEngine)))) = Some otherTour \<and>
   isActive (snd (start 2 otherTour (snd (start 2 closableTour freshEngine)))) \<and>
   filter teardown_effect
     (trace (snd (start 2 otherTour (snd (start 2 closableTour freshEngine))))) = []"
  using start_replaces_without_teardown[of 2 otherTour "snd (start 2 closableTour freshEngine)"]
  by (simp add: engine_defs example_defs)


section \<open>Closing and completing\<close>

lemma cleanup_fields [simp]:
  "config (cleanupActionListener s) = config s"
  "currentStepIndex (cleanupActionListener s) = currentStepIndex s"
  "isActive (cleanupActionListener s) = isActive s"
  "isWaitingForAction (cleanupActionListener s) = isWaitingForAction s"
  "targetRect (cleanupActionListener s) = targetRect s"
  "localStorage (cleanupActionListener s) = localStorage s"
  "timers (cleanupActionListener s) = timers s"
  "trace (cleanupActionListener s) = trace s"
  by (simp_all add: cleanupActionListener_def off_def split: option.splits)

lemma close_none: "config s = None \<Longrightarrow> close d s = (Returned, s)"
  by (simp add: close_def)

lemma close_cases:
  assumes "config s = Some c"
  shows "(fst (close d s) = Returned \<and> idle (snd (close d s)) \<and> config (snd (close d s)) = None)
       \<or> (fst (close d s) \<noteq> Returned \<and> config (snd (close d s)) = Some c)"
proof -
  obtain r1 s1 where em: "emit d ''tutorial:close'' NoData (cleanupActionListener s) = (r1, s1)"
    by (cases "emit d ''tutorial:close'' NoData (cleanupActionListener s)")
  have "frame (cleanupActionListener s) s1"
    using emit_frame[of "cleanupActionListener s" d "''tutorial:close''" NoData] em by simp
  then have c1: "config s1 = Some c" using assms by (simp add: frame_def)
  show ?thesis
    using assms em c1
    by (cases r1; cases "onClose c")
       (simp_all add: close_def andThen_def call_def idle_def currentStep_def del: emit.simps)
qed

lemma close_store: "localStorage (snd (close d s)) = localStorage s"
proof (cases "config s")
  case None
  then show ?thesis by (simp add: close_none)
next
  case (Some c)
  obtain r1 s1 where em: "emit d ''tutorial:close'' NoData (cleanupActionListener s) = (r1, s1)"
    by (cases "emit d ''tutorial:close'' NoData (cleanupActionListener s)")
  have "frame (cleanupActionListener s) s1"
    using emit_frame[of "cleanupActionListener s" d "''tutorial:close''" NoData] em by simp
  then have "localStorage s1 = localStorage s" by (simp add: frame_def)
  then show ?thesis
    using Some em
    by (cases r1)
       (simp_all add: close_def andThen_def call_def del: emit.simps split: option.splits)
qed

lemma close_idle_inv: "idle_inv s \<Longrightarrow> idle_inv (snd (close d s))"
proof (cases "config s")
  case None
  assume "idle_inv s"
  with None show ?thesis by (simp add: close_none)
next
  case (Some c)
  from close_cases[OF Some, of d] show ?thesis by (auto simp: idle_inv_def)
qed

lemma complete_none: "config s = None \<Longrightarrow> complete d s = (Returned, s)"
  by (simp add: complete_def)

lemma complete_some:
  assumes "config s = Some c"
  shows "\<exists>s3. config s3 = Some c \<and>
           localStorage s3 = (localStorage s)(completedKey (cfg_id c) \<mapsto> ''true'') \<and>
           (snd (complete d s) = s3 \<or> snd (complete d s) = snd (close d s3))"
proof -
  let ?s1 = "s\<lparr>localStorage := (localStorage s)(completedKey (cfg_id c) \<mapsto> ''true'')\<rparr>"
  obtain r2 s2 where em: "emit d ''tutorial:complete'' NoData ?s1 = (r2, s2)"
    by (cases "emit d ''tutorial:complete'' NoData ?s1")
  have "frame ?s1 s2" using emit_frame[of ?s1 d "''tutorial:complete''" NoData] em by simp
  then have c2: "config s2 = Some c"
    and l2: "localStorage s2 = (localStorage s)(completedKey (cfg_id c) \<mapsto> ''true'')"
    using assms by (simp_all add: frame_def)
  show ?thesis
  proof (cases r2)
    case (Threw x)
    with assms em have "snd (complete d s) = s2"
      by (simp add: complete_def andThen_def Let_def del: emit.simps)
    with c2 l2 show ?thesis by blast
  next
    case Returned
    obtain r3 s3 where cl: "call OnComplete (onComplete c) s2 = (r3, s3)"
      by (cases "call OnComplete (onComplete c) s2")
    then have c3: "config s3 = Some c" and l3: "localStorage s3 = localStorage s2"
      using c2 by (auto simp: call_def split: option.splits)
    have "snd (complete d s) = s3 \<or> snd (complete d s) = snd (close d s3)"
      using assms em Returned cl c2
      by (cases r3) (simp_all add: complete_def andThen_def Let_def del: emit.simps)
    with c3 l3 l2 show ?thesis by auto
  qed
qed

lemma complete_idle_inv: "idle_inv s \<Longrightarrow> idle_inv (snd (complete d s))"
proof (cases "config s")
  case None
  assume "idle_inv s"
  with None show ?thesis by (simp add: complete_none)
next
  case (Some c)
  from complete_some[OF Some, of d] obtain s3 where
    c3: "config s3 = Some c" and
    d: "snd (complete d s) = s3 \<or> snd (complete d s) = snd (close d s3)" by blast
  have "idle_inv s3" using c3 by (simp add: idle_inv_def)
  with d close_idle_inv[of s3 d] show ?thesis by auto
qed

lemma complete_store:
  "localStorage (snd (complete d s)) =
     (case config s of None \<Rightarrow> localStorage s
      | Some c \<Rightarrow> (localStorage s)(completedKey (cfg_id c) \<mapsto> ''true''))"
proof (cases "config s")
  case None
  then show ?thesis by (simp add: complete_none)
next
  case (Some c)
  from complete_some[OF Some, of d] show ?thesis
    using Some by (auto simp: close_store)
qed


lemma next_step_untouched: "untouched s (snd (next_step d s))"
  by (simp add: next_step_def goToStep_untouched)

lemma previous_untouched: "untouched s (snd (previous d s))"
  by (simp add: previous_def goToStep_untouched)

lemma skipTo_untouched: "untouched s (snd (skipTo d i s))"
  by (simp add: skipTo_def Let_def goToStep_untouched split: option.splits)

lemma next_step_no_config: "config s = None \<Longrightarrow> next_step d s = (Returned, s)"
  by (simp add: next_step_def goToStep_no_config)

lemma previous_no_config: "config s = None \<Longrightarrow> previous d s = (Returned, s)"
  by (simp add: previous_def goToStep_no_config)

lemma skipTo_no_config: "config s = None \<Longrightarrow> skipTo d i s = (Returned, s)"
  by (simp add: skipTo_def)

lemma untouched_idle_inv:
  "untouched s s' \<Longrightarrow> config s \<noteq> None \<Longrightarrow> idle_inv s'"
  by (auto simp: untouched_def idle_inv_def)

lemma frame_idle_inv: "frame s s' \<Longrightarrow> idle_inv s \<Longrightarrow> idle_inv s'"
  by (auto simp: frame_def idle_inv_def idle_def currentStep_def)

lemma updateTargetRect_idle_inv: "idle_inv s \<Longrightarrow> idle_inv (updateTargetRect s)"
  by (auto simp: updateTargetRect_def idle_inv_def idle_def currentStep_def split: option.splits)

lemma off_idle_inv: "idle_inv s \<Longrightarrow> idle_inv (off e h s)"
  by (auto simp: off_def idle_inv_def idle_def currentStep_def split: option.splits)

lemma runTimer_idle_inv: "idle_inv s \<Longrightarrow> idle_inv (runTimer cb s)"
proof (cases cb)
  case RectTimer
  assume "idle_inv s"
  with RectTimer show ?thesis by (simp add: runTimer_def updateTargetRect_idle_inv)
next
  case (GateTimer e h)
  assume "idle_inv s"
  then have "idle_inv (off e h (s\<lparr>isWaitingForAction := False\<rparr>))"
    by (intro off_idle_inv) (auto simp: idle_inv_def idle_def currentStep_def)
  then have "idle_inv ((off e h (s\<lparr>isWaitingForAction := False\<rparr>))\<lparr>currentActionHandler := None\<rparr>)"
    by (auto simp: idle_inv_def idle_def currentStep_def)
  with GateTimer \<open>idle_inv s\<close> show ?thesis by (simp add: runTimer_def)
qed

lemma fireTimer_idle_inv: "idle_inv s \<Longrightarrow> idle_inv (fireTimer k s)"
proof -
  assume a: "idle_inv s"
  have "idle_inv (s\<lparr>timers := take k (timers s) @ drop (Suc k) (timers s)\<rparr>)"
    using a by (auto simp: idle_inv_def idle_def currentStep_def)
  then show ?thesis using a by (simp add: fireTimer_def runTimer_idle_inv)
qed

lemma exec_idle_inv: "idle_inv s \<Longrightarrow> idle_inv (snd (exec d x s))"
proof (cases x)
  case (Start c)
  then show ?thesis by (simp add: idle_inv_def start_result(1))
next
  case (GoToStep i)
  assume "idle_inv s"
  with GoToStep show ?thesis
    using goToStep_untouched[of s d i] untouched_idle_inv[of s "snd (goToStep d i s)"]
    by (cases "config s") (auto simp: goToStep_no_config)
next
  case Next
  assume "idle_inv s"
  with Next show ?thesis
    using next_step_untouched[of s d] untouched_idle_inv[of s "snd (next_step d s)"]
    by (cases "config s") (auto simp: next_step_no_config)
next
  case Previous
  assume "idle_inv s"
  with Previous show ?thesis
    using previous_untouched[of s d] untouched_idle_inv[of s "snd (previous d s)"]
    by (cases "config s") (auto simp: previous_no_config)
next
  case (SkipTo i)
  assume "idle_inv s"
  with SkipTo show ?thesis
    using skipTo_untouched[of s d i] untouched_idle_inv[of s "snd (skipTo d i s)"]
    by (cases "config s") (auto simp: skipTo_no_config)
next
  case Complete
  assume "idle_inv s"
  with Complete show ?thesis by (simp add: complete_idle_inv)
next
  case Close
  assume "idle_inv s"
  with Close show ?thesis by (simp add: close_idle_inv)
next
  case UpdateTargetRect
  assume "idle_inv s"
  with UpdateTargetRect show ?thesis by (simp add: updateTargetRect_idle_inv)
next
  case (TriggerAction n p)
  assume "idle_inv s"
  with TriggerAction show ?thesis
    using frame_idle_inv[OF emit_frame[of s d n p]] by (simp add: triggerAction_def del: emit.simps)
next
  case (Emit n p)
  assume "idle_inv s"
  with Emit show ?thesis
    using frame_idle_inv[OF emit_frame[of s d n p]] by (simp del: emit.simps)
next
  case (On n f)
  assume "idle_inv s"
  with On show ?thesis
    by (auto simp: on_def idle_inv_def idle_def currentStep_def split: option.splits)
next
  case (Off n f)
  assume "idle_inv s"
  with Off show ?thesis by (simp add: off_idle_inv)
next
  case (ResetCompletion i)
  assume "idle_inv s"
  with ResetCompletion show ?thesis
    by (auto simp: resetCompletion_def idle_inv_def idle_def currentStep_def)
next
  case (FireTimer k)
  assume "idle_inv s"
  with FireTimer show ?thesis by (simp add: fireTimer_idle_inv)
next
  case (Environment q vh sy)
  assume "idle_inv s"
  with Environment show ?thesis by (auto simp: idle_inv_def idle_def currentStep_def)
qed

lemma run_idle_inv: "idle_inv s \<Longrightarrow> idle_inv (run d xs s)"
  by (induction xs arbitrary: s) (simp_all add: exec_idle_inv)

lemma initial_idle_inv: "idle_inv (initial store q vh sy)"
  by (simp add: idle_inv_def idle_def initial_def currentStep_def)

text \<open>
  C7 (as the code has it). Whatever sequence of operations, each run to its end before
  the next, a fresh engine has gone through: whenever it has no active configuration,
  the refs have their idle values (isActive false, step index -1, no current step, no
  target rectangle, not waiting); and a \<^verbatim>\<open>close\<close> that returns normally leaves it in
  exactly that state.
\<close>

theorem close_always_resets:
  "(config (run d xs (initial store q vh sy)) = None \<longrightarrow> idle (run d xs (initial store q vh sy))) \<and>
   (fst (close d' (run d xs (initial store q vh sy))) = Returned \<longrightarrow>
      idle (snd (close d' (run d xs (initial store q vh sy)))) \<and>
      config (snd (close d' (run d xs (initial store q vh sy)))) = None)"
proof -
  let ?s = "run d xs (initial store q vh sy)"
  have inv: "idle_inv ?s" by (rule run_idle_inv[OF initial_idle_inv])
  show ?thesis
  proof (cases "config ?s")
    case None
    with inv show ?thesis by (simp add: close_none idle_inv_def)
  next
    case (Some c)
    from close_cases[OF Some, of d'] Some show ?thesis by auto
  qed
qed


lemmas engine_defs2 = engine_defs next_step_def previous_def canGoNext_def canGoPrevious_def
  totalSteps_def idle_def triggerAction_def isCompleted_def resetCompletion_def completedKey_def
  fireTimer_def runTimer_def

theorem close_always_resets_witness:
  "config (run 2 [Start closableTour, Next, Close] freshEngine) = None \<and>
   idle (run 2 [Start closableTour, Next, Close] freshEngine) \<and>
   isWaitingForAction (run 2 [Start gatedTour] freshEngine) \<and>
   fst (close 2 (run 2 [Start gatedTour] freshEngine)) = Returned \<and>
   idle (snd (close 2 (run 2 [Start gatedTour] freshEngine))) \<and>
   config (snd (close 2 (run 2 [Start gatedTour] freshEngine))) = None"
  using close_always_resets[of 2 "[Start closableTour, Next, Close]" Map.empty Map.empty 800 0 2]
    close_always_resets[of 2 "[Start gatedTour]" Map.empty Map.empty 800 0 2]
  by (simp add: engine_defs2 example_defs gatedTour_def)

lemma enterStep_afterTick:
  "enterStep d st i s = afterTick d st i (s\<lparr>currentStepIndex := i, isWaitingForAction := False\<rparr>)"
  unfolding enterStep_def afterTick_def by (simp only: Let_def)

lemma goToStep_split:
  assumes "beforeTick i s = Some (st, u)"
  shows "goToStep d i s = afterTick d st i u"
proof -
  from assms obtain c where c: "config s = Some c"
    by (cases "config s") (simp_all add: beforeTick_def)
  from assms c have n: "nth_opt (steps c) i = Some st"
    by (cases "nth_opt (steps c) i")
       (auto simp: beforeTick_def Let_def split: prod.splits outcome.splits)
  let ?r = "call OnExit (case currentStep (cleanupActionListener s) of None \<Rightarrow> None
                         | Some cur \<Rightarrow> onExit cur) (cleanupActionListener s)"
  obtain o1 t where r: "?r = (o1, t)" by (cases ?r)
  from assms c n r have o1: "o1 = Returned"
    and u: "u = t\<lparr>currentStepIndex := i, isWaitingForAction := False\<rparr>"
    by (cases o1; simp add: beforeTick_def Let_def)+
  show ?thesis
    using c n r o1 u by (simp add: goToStep_def Let_def andThen_def enterStep_afterTick)
qed

text \<open>
  C7 (the claim at concrete inputs). \<^verbatim>\<open>close\<close> has no \<^verbatim>\<open>try\<close>/\<^verbatim>\<open>finally\<close>: when the
  \<^verbatim>\<open>onClose\<close> callback throws, the five assignments after it are not reached and the
  engine stays active with its configuration. And nothing cancels a \<^verbatim>\<open>goToStep\<close>
  that is suspended at \<^verbatim>\<open>await nextTick()\<close>: when \<^verbatim>\<open>close\<close> runs in between, it returns
  and leaves the idle values, and the rest of \<^verbatim>\<open>goToStep\<close> then sets
  \<^verbatim>\<open>isWaitingForAction\<close> on an engine with no configuration.
\<close>

theorem close_counterexample:
  "fst (close 1 (run 1 [Start throwingCloseTour] freshEngine)) = Threw (HostError 9) \<and>
   isActive (snd (close 1 (run 1 [Start throwingCloseTour] freshEngine))) \<and>
   config (snd (close 1 (run 1 [Start throwingCloseTour] freshEngine))) = Some throwingCloseTour \<and>
   beforeTick 0 (run 1 [Start gatedTour] freshEngine) = Some (hd (steps gatedTour), suspended) \<and>
   fst (close 1 suspended) = Returned \<and> idle (snd (close 1 suspended)) \<and>
   fst (afterTick 1 (hd (steps gatedTour)) 0 (snd (close 1 suspended))) = Returned \<and>
   config (snd (afterTick 1 (hd (steps gatedTour)) 0 (snd (close 1 suspended)))) = None \<and>
   isWaitingForAction (snd (afterTick 1 (hd (steps gatedTour)) 0 (snd (close 1 suspended))))"
  by (simp add: engine_defs2 example_defs gatedTour_def throwingCloseTour_def suspended_def
      beforeTick_def afterTick_def eval_nat_numeral)

lemma completedKey_inj: "completedKey a = completedKey b \<longleftrightarrow> a = b"
  by (simp add: completedKey_def)

lemma exec_store:
  assumes "localStorage s k = Some ''true''"
    and "\<forall>i. x = ResetCompletion i \<longrightarrow> completedKey i \<noteq> k"
  shows "localStorage (snd (exec d x s)) k = Some ''true''"
proof (cases x)
  case (Start c)
  with assms show ?thesis by (simp add: start_result(3))
next
  case (GoToStep i)
  with assms show ?thesis using goToStep_untouched[of s d i] by (simp add: untouched_def)
next
  case Next
  with assms show ?thesis using next_step_untouched[of s d] by (simp add: untouched_def)
next
  case Previous
  with assms show ?thesis using previous_untouched[of s d] by (simp add: untouched_def)
next
  case (SkipTo i)
  with assms show ?thesis using skipTo_untouched[of s d i] by (simp add: untouched_def)
next
  case Complete
  with assms show ?thesis by (simp add: complete_store split: option.splits)
next
  case Close
  with assms show ?thesis by (simp add: close_store)
next
  case UpdateTargetRect
  with assms show ?thesis by (simp add: updateTargetRect_def split: option.splits)
next
  case (TriggerAction n p)
  with assms show ?thesis
    using emit_frame[of s d n p] by (simp add: triggerAction_def frame_def del: emit.simps)
next
  case (Emit n p)
  with assms show ?thesis using emit_frame[of s d n p] by (simp add: frame_def del: emit.simps)
next
  case (On n f)
  with assms show ?thesis by (simp add: on_def split: option.splits)
next
  case (Off n f)
  with assms show ?thesis by (simp add: off_def split: option.splits)
next
  case (ResetCompletion i)
  with assms show ?thesis by (simp add: resetCompletion_def)
next
  case (FireTimer j)
  with assms show ?thesis
    by (simp add: fireTimer_def runTimer_def updateTargetRect_def off_def
        split: timer_cb.splits option.splits)
next
  case (Environment q vh sy)
  with assms show ?thesis by simp
qed

lemma run_store:
  "localStorage s k = Some ''true'' \<Longrightarrow>
   \<forall>i. ResetCompletion i \<in> set xs \<longrightarrow> completedKey i \<noteq> k \<Longrightarrow>
   localStorage (run d xs s) k = Some ''true''"
proof (induction xs arbitrary: s)
  case Nil
  then show ?case by simp
next
  case (Cons x xs)
  have "localStorage (snd (exec d x s)) k = Some ''true''"
    using Cons.prems by (intro exec_store) auto
  then show ?case using Cons.prems by (simp add: Cons.IH)
qed

text \<open>
  C8. With a configuration \<open>c\<close> active, \<^verbatim>\<open>complete\<close> makes \<^verbatim>\<open>isCompleted\<close> true for its
  id; it stays true under every sequence of operations that does not reset this id, and
  \<^verbatim>\<open>resetCompletion\<close> of the id makes it false.
\<close>

theorem completed_until_reset:
  assumes "config s = Some c" and "ResetCompletion (cfg_id c) \<notin> set xs"
  shows "isCompleted (snd (complete d s)) (cfg_id c) \<and>
         isCompleted (run d' xs (snd (complete d s))) (cfg_id c) \<and>
         \<not> isCompleted (resetCompletion (cfg_id c) (run d' xs (snd (complete d s)))) (cfg_id c)"
proof -
  have a: "localStorage (snd (complete d s)) (completedKey (cfg_id c)) = Some ''true''"
    using assms(1) by (simp add: complete_store)
  have "\<forall>i. ResetCompletion i \<in> set xs \<longrightarrow> completedKey i \<noteq> completedKey (cfg_id c)"
    using assms(2) by (auto simp: completedKey_inj)
  with a have "localStorage (run d' xs (snd (complete d s))) (completedKey (cfg_id c)) = Some ''true''"
    by (rule run_store)
  with a show ?thesis by (simp add: isCompleted_def resetCompletion_def)
qed

theorem completed_until_reset_witness:
  "config (snd (start 2 closableTour freshEngine)) = Some closableTour \<and>
   ResetCompletion (cfg_id closableTour) \<notin>
     set [Start otherTour, Complete, ResetCompletion ''b'', Start closableTour, Close] \<and>
   \<not> isCompleted (snd (start 2 closableTour freshEngine)) (cfg_id closableTour) \<and>
   isCompleted (snd (complete 2 (snd (start 2 closableTour freshEngine)))) (cfg_id closableTour) \<and>
   isCompleted
     (run 2 [Start otherTour, Complete, ResetCompletion ''b'', Start closableTour, Close]
        (snd (complete 2 (snd (start 2 closableTour freshEngine))))) (cfg_id closableTour) \<and>
   \<not> isCompleted
     (resetCompletion (cfg_id closableTour)
        (run 2 [Start otherTour, Complete, ResetCompletion ''b'', Start closableTour, Close]
           (snd (complete 2 (snd (start 2 closableTour freshEngine)))))) (cfg_id closableTour)"
  using completed_until_reset[of "snd (start 2 closableTour freshEngine)" closableTour
      "[Start otherTour, Complete, ResetCompletion ''b'', Start closableTour, Close]" 2 2]
  by (simp add: engine_defs2 example_defs)


section \<open>The persistence store and navigation\<close>

lemma same_view_refl [simp]: "same_view s s"
  by (simp add: same_view_def)

lemma same_view_store [simp]:
  "same_view s (s\<lparr>localStorage := st\<rparr>)" "same_view s (s\<lparr>console := c\<rparr>)"
  by (simp_all add: same_view_def)

lemma same_view_trans: "same_view s t \<Longrightarrow> same_view t u \<Longrightarrow> same_view s u"
  by (simp add: same_view_def)

lemma same_view_sym: "same_view s t \<Longrightarrow> same_view t s"
  by (simp add: same_view_def)

lemma same_result_pair [simp]:
  "same_result (r, s) (r', t) \<longleftrightarrow> r = r' \<and> same_view s t"
  by (simp add: same_result_def)

lemma registered_view: "same_view s t \<Longrightarrow> registered s ev = registered t ev"
  by (simp add: same_view_def registered_def)

lemma off_view: "same_view s t \<Longrightarrow> same_view (off e h s) (off e h t)"
  by (auto simp: same_view_def off_def split: option.splits)

lemma on_view: "same_view s t \<Longrightarrow> same_view (on e h s) (on e h t)"
  by (auto simp: same_view_def on_def split: option.splits)

lemma dispatch_view:
  "\<forall>t. same_view s t \<longrightarrow> same_result (emit d ev data s) (emit d ev data t)"
  "\<forall>t. same_view s t \<longrightarrow> same_result (forEach d ev data hs s) (forEach d ev data hs t)"
  "\<forall>t. same_view s t \<longrightarrow> same_result (invoke d data h s) (invoke d data h t)"
proof (induction d ev data s and d ev data hs s and d data h s rule: emit_forEach_invoke.induct)
  case (1 d ev data s)
  show ?case
  proof (intro allI impI)
    fix t assume v: "same_view s t"
    then have "same_view (s\<lparr>trace := trace s @ [Emitted ev data]\<rparr>)
                         (t\<lparr>trace := trace t @ [Emitted ev data]\<rparr>)"
      by (simp add: same_view_def)
    with 1 registered_view[OF v, of ev] show "same_result (emit d ev data s) (emit d ev data t)"
      by simp
  qed
next
  case (2 d ev data s)
  show ?case by simp
next
  case (3 d ev data h hs s)
  show ?case
  proof (intro allI impI)
    fix t assume v: "same_view s t"
    note reg = registered_view[OF v, of ev]
    show "same_result (forEach d ev data (h # hs) s) (forEach d ev data (h # hs) t)"
    proof (cases "h \<in> set (registered s ev)")
      case False
      with 3(1) v reg show ?thesis by simp
    next
      case True
      obtain r s' where iv: "invoke d data h s = (r, s')" by (cases "invoke d data h s")
      obtain r' t' where iv': "invoke d data h t = (r', t')" by (cases "invoke d data h t")
      from 3(2) True v iv iv' have rr: "r' = r" and v': "same_view s' t'" by auto
      note iv' = iv'[unfolded rr]
      show ?thesis
      proof (cases r)
        case Returned
        with 3(3)[OF _ iv[symmetric]] True v' have
          "same_result (forEach d ev data hs s') (forEach d ev data hs t')" by simp
        with Returned iv iv' True reg show ?thesis by simp
      next
        case (Threw x)
        with iv iv' v' True reg show ?thesis by simp
      qed
    qed
  qed
next
  case (4 d data f s)
  show ?case by (simp add: same_view_def)
next
  case (5 data i eventName s)
  show ?case by (simp add: same_view_def)
next
  case (6 d data i e s)
  show ?case
  proof (intro allI impI)
    fix t assume v: "same_view s t"
    let ?s1 = "s\<lparr>isWaitingForAction := False\<rparr>" and ?t1 = "t\<lparr>isWaitingForAction := False\<rparr>"
    have v1: "same_view ?s1 ?t1" using v by (simp add: same_view_def)
    obtain r s' where em: "emit d ''tutorial:action-completed'' (ActionCompleted e) ?s1 = (r, s')"
      by (cases "emit d ''tutorial:action-completed'' (ActionCompleted e) ?s1")
    obtain r' t' where em': "emit d ''tutorial:action-completed'' (ActionCompleted e) ?t1 = (r', t')"
      by (cases "emit d ''tutorial:action-completed'' (ActionCompleted e) ?t1")
    from 6 v1 em em' have rr: "r' = r" and v': "same_view s' t'" by (auto simp del: emit.simps)
    note em' = em'[unfolded rr]
    have "same_view ((off e (ActionHandler i e) s')\<lparr>currentActionHandler := None\<rparr>)
                    ((off e (ActionHandler i e) t')\<lparr>currentActionHandler := None\<rparr>)"
      using off_view[OF v', of e "ActionHandler i e"] by (simp add: same_view_def)
    with em em' v' show "same_result (invoke (Suc d) data (ActionHandler i e) s)
                                  (invoke (Suc d) data (ActionHandler i e) t)"
      by (cases r) (simp_all del: emit.simps)
  qed
qed

lemma emit_view: "same_view s t \<Longrightarrow> same_result (emit d ev data s) (emit d ev data t)"
  using dispatch_view(1) by blast

lemma andThen_view:
  "same_result r r' \<Longrightarrow> (\<And>s t. same_view s t \<Longrightarrow> same_result (k s) (k' t)) \<Longrightarrow>
   same_result (andThen r k) (andThen r' k')"
  by (cases r; cases r'; cases "fst r") (auto simp: andThen_def same_result_def)

lemma call_view: "same_view s t \<Longrightarrow> same_result (call k cb s) (call k cb t)"
  by (auto simp: call_def same_view_def split: option.splits)

lemma currentStep_view: "same_view s t \<Longrightarrow> currentStep s = currentStep t"
  by (simp add: same_view_def currentStep_def split: option.splits)

lemma cleanup_view: "same_view s t \<Longrightarrow> same_view (cleanupActionListener s) (cleanupActionListener t)"
proof -
  assume v: "same_view s t"
  then have c: "currentActionHandler s = currentActionHandler t" by (simp add: same_view_def)
  show ?thesis
  proof (cases "currentActionHandler s")
    case None
    with c v show ?thesis by (simp add: cleanupActionListener_def)
  next
    case (Some a)
    obtain e h where a: "a = (e, h)" by (cases a)
    have "same_view ((off e h s)\<lparr>currentActionHandler := None\<rparr>)
                    ((off e h t)\<lparr>currentActionHandler := None\<rparr>)"
      using off_view[OF v, of e h] by (simp add: same_view_def)
    with Some c a show ?thesis by (simp add: cleanupActionListener_def)
  qed
qed

lemma updateTargetRect_view: "same_view s t \<Longrightarrow> same_view (updateTargetRect s) (updateTargetRect t)"
  using currentStep_view[of s t]
  by (auto simp: updateTargetRect_def same_view_def split: option.splits)

lemma scroll_view:
  "same_view s t \<Longrightarrow> same_view (scrollElementIntoView r p s) (scrollElementIntoView r p t)"
  by (auto simp: scrollElementIntoView_def same_view_def Let_def split: prod.splits if_splits)

lemma setup_view:
  "same_view s t \<Longrightarrow> same_view (setupActionListener e tm s) (setupActionListener e tm t)"
proof -
  assume v: "same_view s t"
  then have n: "nextId s = nextId t" by (simp add: same_view_def)
  have "same_view (s\<lparr>nextId := Suc (nextId s)\<rparr>) (t\<lparr>nextId := Suc (nextId t)\<rparr>)"
    using v by (simp add: same_view_def)
  from on_view[OF this, of e "ActionHandler (nextId s) e"] n
  show ?thesis by (auto simp: setupActionListener_def Let_def same_view_def split: option.splits)
qed


lemma enterStep_view:
  assumes v: "same_view s t"
  shows "same_result (enterStep d st i s) (enterStep d st i t)"
proof -
  let ?a = "\<lambda>s. s\<lparr>currentStepIndex := i, isWaitingForAction := False\<rparr>"
  let ?b = "\<lambda>s2. (case target st of None \<Rightarrow> s2 | Some sel \<Rightarrow>
                if sel = [] then s2
                else (case dom s2 sel of None \<Rightarrow> s2
                      | Some r \<Rightarrow> scrollElementIntoView r
                           (case placement st of None \<Rightarrow> Bottom | Some p \<Rightarrow> p) s2))"
  let ?c = "\<lambda>s4. (case waitForAction st of None \<Rightarrow> s4
             | Some w \<Rightarrow> setupActionListener (wa_event w) (wa_timeout w)
                           (s4\<lparr>isWaitingForAction := True\<rparr>))"
  have v1: "same_view (?a s) (?a t)" using v by (simp add: same_view_def)
  have v2: "same_view (updateTargetRect (?a s)) (updateTargetRect (?a t))"
    by (rule updateTargetRect_view[OF v1])
  have bb: "\<And>x y. same_view x y \<Longrightarrow> same_view (?b x) (?b y)"
  proof -
    fix x y :: state assume xy: "same_view x y"
    then have "dom x = dom y" by (simp add: same_view_def)
    with xy show "same_view (?b x) (?b y)"
      by (auto split: option.splits intro: scroll_view)
  qed
  have cc: "\<And>x y. same_view x y \<Longrightarrow> same_view (?c x) (?c y)"
  proof -
    fix x y :: state assume xy: "same_view x y"
    then have "same_view (x\<lparr>isWaitingForAction := True\<rparr>) (y\<lparr>isWaitingForAction := True\<rparr>)"
      by (simp add: same_view_def)
    with xy show "same_view (?c x) (?c y)"
      by (auto split: option.splits intro: setup_view)
  qed
  have "same_result
     (andThen (call OnEnter (onEnter st) (?b (updateTargetRect (?a s))))
        (\<lambda>s4. emit d ''tutorial:step-change'' (StepChange st i) (?c s4)))
     (andThen (call OnEnter (onEnter st) (?b (updateTargetRect (?a t))))
        (\<lambda>s4. emit d ''tutorial:step-change'' (StepChange st i) (?c s4)))"
  proof (rule andThen_view)
    show "same_result (call OnEnter (onEnter st) (?b (updateTargetRect (?a s))))
                      (call OnEnter (onEnter st) (?b (updateTargetRect (?a t))))"
      by (rule call_view[OF bb[OF v2]])
  next
    fix x y :: state assume "same_view x y"
    then show "same_result (emit d ''tutorial:step-change'' (StepChange st i) (?c x))
                           (emit d ''tutorial:step-change'' (StepChange st i) (?c y))"
      by (intro emit_view cc)
  qed
  then show ?thesis by (simp add: enterStep_def Let_def del: emit.simps)
qed

lemma goToStep_view:
  assumes v: "same_view s t"
  shows "same_result (goToStep d i s) (goToStep d i t)"
proof -
  from v have c: "config t = config s" by (simp add: same_view_def)
  show ?thesis
  proof (cases "config s")
    case None
    with c v show ?thesis by (simp add: goToStep_def)
  next
    case (Some cfg)
    show ?thesis
    proof (cases "nth_opt (steps cfg) i")
      case None
      with Some c v show ?thesis by (simp add: goToStep_def)
    next
      case (Some st)
      let ?cb = "\<lambda>s1. case currentStep s1 of None \<Rightarrow> None | Some cur \<Rightarrow> onExit cur"
      have v1: "same_view (cleanupActionListener s) (cleanupActionListener t)"
        by (rule cleanup_view[OF v])
      have "?cb (cleanupActionListener s) = ?cb (cleanupActionListener t)"
        using currentStep_view[OF v1] by simp
      then have "same_result (call OnExit (?cb (cleanupActionListener s)) (cleanupActionListener s))
                       (call OnExit (?cb (cleanupActionListener t)) (cleanupActionListener t))"
        using call_view[OF v1, of OnExit "?cb (cleanupActionListener s)"] by simp
      then have "same_result
          (andThen (call OnExit (?cb (cleanupActionListener s)) (cleanupActionListener s))
             (enterStep d st i))
          (andThen (call OnExit (?cb (cleanupActionListener t)) (cleanupActionListener t))
             (enterStep d st i))"
        by (rule andThen_view) (rule enterStep_view)
      with Some \<open>config s = Some cfg\<close> c show ?thesis by (simp add: goToStep_def Let_def)
    qed
  qed
qed

lemma start_view:
  assumes v: "same_view s t"
  shows "same_result (start d c s) (start d c t)"
proof -
  let ?a = "\<lambda>s. s\<lparr>config := Some c, currentStepIndex := 0, isActive := True\<rparr>"
  let ?b = "\<lambda>s. if localStorage (?a s) (completedKey (cfg_id c)) = Some ''true''
             then (?a s)\<lparr>console := console (?a s) @
                    [''[Tutorial] '' @ [CHR 0x22] @ cfg_id c @ [CHR 0x22] @ '' already completed'']\<rparr>
             else ?a s"
  have "same_view (?b s) (?b t)" using v by (simp add: same_view_def)
  then have "same_result (emit d ''tutorial:start'' NoData (?b s)) (emit d ''tutorial:start'' NoData (?b t))"
    by (rule emit_view)
  then have "same_result (andThen (emit d ''tutorial:start'' NoData (?b s)) (goToStep d 0))
                         (andThen (emit d ''tutorial:start'' NoData (?b t)) (goToStep d 0))"
    by (rule andThen_view) (rule goToStep_view)
  then show ?thesis by (simp add: start_def Let_def del: emit.simps)
qed

lemma next_step_view: "same_view s t \<Longrightarrow> same_result (next_step d s) (next_step d t)"
proof -
  assume v: "same_view s t"
  then have "canGoNext s = canGoNext t" "currentStepIndex s = currentStepIndex t"
    by (simp_all add: canGoNext_def totalSteps_def same_view_def)
  with v goToStep_view[OF v] show ?thesis by (simp add: next_step_def)
qed

lemma previous_view: "same_view s t \<Longrightarrow> same_result (previous d s) (previous d t)"
proof -
  assume v: "same_view s t"
  then have "canGoPrevious s = canGoPrevious t" "currentStepIndex s = currentStepIndex t"
    by (simp_all add: canGoPrevious_def same_view_def)
  with v goToStep_view[OF v] show ?thesis by (simp add: previous_def)
qed

lemma skipTo_view: "same_view s t \<Longrightarrow> same_result (skipTo d i s) (skipTo d i t)"
proof -
  assume v: "same_view s t"
  then have "config s = config t" by (simp add: same_view_def)
  with v goToStep_view[OF v] show ?thesis
    by (simp add: skipTo_def Let_def split: option.splits)
qed

lemma close_view:
  assumes v: "same_view s t"
  shows "same_result (close d s) (close d t)"
proof -
  from v have c: "config t = config s" by (simp add: same_view_def)
  show ?thesis
  proof (cases "config s")
    case None
    with c v show ?thesis by (simp add: close_def)
  next
    case (Some cfg)
    let ?k = "\<lambda>s1. andThen (call OnClose (case config s1 of None \<Rightarrow> None | Some c1 \<Rightarrow> onClose c1) s1)
              (\<lambda>s2. (Returned,
                 s2\<lparr>isActive := False, currentStepIndex := - 1, config := None,
                    targetRect := None, isWaitingForAction := False\<rparr>))"
    have "same_result (emit d ''tutorial:close'' NoData (cleanupActionListener s))
                      (emit d ''tutorial:close'' NoData (cleanupActionListener t))"
      by (rule emit_view[OF cleanup_view[OF v]])
    then have "same_result (andThen (emit d ''tutorial:close'' NoData (cleanupActionListener s)) ?k)
                           (andThen (emit d ''tutorial:close'' NoData (cleanupActionListener t)) ?k)"
    proof (rule andThen_view)
      fix x y :: state assume xy: "same_view x y"
      then have "config x = config y" by (simp add: same_view_def)
      then have "same_result
          (call OnClose (case config x of None \<Rightarrow> None | Some c1 \<Rightarrow> onClose c1) x)
          (call OnClose (case config y of None \<Rightarrow> None | Some c1 \<Rightarrow> onClose c1) y)"
        using call_view[OF xy] by simp
      then show "same_result (?k x) (?k y)"
        by (rule andThen_view) (simp add: same_view_def)
    qed
    with Some c show ?thesis by (simp add: close_def del: emit.simps)
  qed
qed

lemma complete_view:
  assumes v: "same_view s t"
  shows "same_result (complete d s) (complete d t)"
proof -
  from v have c: "config t = config s" by (simp add: same_view_def)
  show ?thesis
  proof (cases "config s")
    case None
    with c v show ?thesis by (simp add: complete_def)
  next
    case (Some cfg)
    let ?a = "\<lambda>s. s\<lparr>localStorage := (localStorage s)(completedKey (cfg_id cfg) \<mapsto> ''true'')\<rparr>"
    let ?k = "\<lambda>s2. andThen
               (call OnComplete (case config s2 of None \<Rightarrow> None | Some c2 \<Rightarrow> onComplete c2) s2)
               (close d)"
    have "same_view (?a s) (?a t)" using v by (simp add: same_view_def)
    then have "same_result (emit d ''tutorial:complete'' NoData (?a s))
                           (emit d ''tutorial:complete'' NoData (?a t))"
      by (rule emit_view)
    then have "same_result (andThen (emit d ''tutorial:complete'' NoData (?a s)) ?k)
                           (andThen (emit d ''tutorial:complete'' NoData (?a t)) ?k)"
    proof (rule andThen_view)
      fix x y :: state assume xy: "same_view x y"
      then have "config x = config y" by (simp add: same_view_def)
      then have "same_result
          (call OnComplete (case config x of None \<Rightarrow> None | Some c1 \<Rightarrow> onComplete c1) x)
          (call OnComplete (case config y of None \<Rightarrow> None | Some c1 \<Rightarrow> onComplete c1) y)"
        using call_view[OF xy] by simp
      then show "same_result (?k x) (?k y)"
        by (rule andThen_view) (rule close_view)
    qed
    with Some c show ?thesis by (simp add: complete_def Let_def del: emit.simps)
  qed
qed

lemma runTimer_view: "same_view s t \<Longrightarrow> same_view (runTimer cb s) (runTimer cb t)"
proof (cases cb)
  case RectTimer
  assume "same_view s t"
  with RectTimer show ?thesis by (simp add: runTimer_def updateTargetRect_view)
next
  case (GateTimer e h)
  assume v: "same_view s t"
  then have w: "isWaitingForAction s = isWaitingForAction t" by (simp add: same_view_def)
  have "same_view (s\<lparr>isWaitingForAction := False\<rparr>) (t\<lparr>isWaitingForAction := False\<rparr>)"
    using v by (simp add: same_view_def)
  from off_view[OF this, of e h]
  have "same_view ((off e h (s\<lparr>isWaitingForAction := False\<rparr>))\<lparr>currentActionHandler := None\<rparr>)
                  ((off e h (t\<lparr>isWaitingForAction := False\<rparr>))\<lparr>currentActionHandler := None\<rparr>)"
    by (simp add: same_view_def)
  with GateTimer v w show ?thesis by (simp add: runTimer_def)
qed

lemma fireTimer_view: "same_view s t \<Longrightarrow> same_view (fireTimer k s) (fireTimer k t)"
proof -
  assume v: "same_view s t"
  then have tt: "timers s = timers t" by (simp add: same_view_def)
  have "same_view (s\<lparr>timers := take k (timers s) @ drop (Suc k) (timers s)\<rparr>)
                  (t\<lparr>timers := take k (timers t) @ drop (Suc k) (timers t)\<rparr>)"
    using v by (simp add: same_view_def)
  from runTimer_view[OF this] v tt show ?thesis by (simp add: fireTimer_def)
qed

lemma exec_view: "same_view s t \<Longrightarrow> same_result (exec d x s) (exec d x t)"
proof (cases x)
  case (Start c)
  assume "same_view s t"
  with Start show ?thesis by (simp add: start_view)
next
  case (GoToStep i)
  assume "same_view s t"
  with GoToStep show ?thesis by (simp add: goToStep_view)
next
  case Next
  assume "same_view s t"
  with Next show ?thesis by (simp add: next_step_view)
next
  case Previous
  assume "same_view s t"
  with Previous show ?thesis by (simp add: previous_view)
next
  case (SkipTo i)
  assume "same_view s t"
  with SkipTo show ?thesis by (simp add: skipTo_view)
next
  case Complete
  assume "same_view s t"
  with Complete show ?thesis by (simp add: complete_view)
next
  case Close
  assume "same_view s t"
  with Close show ?thesis by (simp add: close_view)
next
  case UpdateTargetRect
  assume "same_view s t"
  with UpdateTargetRect show ?thesis by (simp add: updateTargetRect_view)
next
  case (TriggerAction n p)
  assume "same_view s t"
  with TriggerAction show ?thesis by (simp add: triggerAction_def emit_view del: emit.simps)
next
  case (Emit n p)
  assume "same_view s t"
  with Emit show ?thesis by (simp add: emit_view del: emit.simps)
next
  case (On n f)
  assume "same_view s t"
  with On show ?thesis by (simp add: on_view)
next
  case (Off n f)
  assume "same_view s t"
  with Off show ?thesis by (simp add: off_view)
next
  case (ResetCompletion i)
  assume "same_view s t"
  with ResetCompletion show ?thesis by (simp add: resetCompletion_def same_view_def)
next
  case (FireTimer k)
  assume "same_view s t"
  with FireTimer show ?thesis by (simp add: fireTimer_view)
next
  case (Environment q vh sy)
  assume "same_view s t"
  with Environment show ?thesis by (simp add: same_view_def)
qed

lemma run_view:
  "same_view s t \<Longrightarrow> same_view (run d xs s) (run d xs t) \<and> outcomes d xs s = outcomes d xs t"
proof (induction xs arbitrary: s t)
  case Nil
  then show ?case by simp
next
  case (Cons x xs)
  from exec_view[OF Cons.prems, of d x]
  have "fst (exec d x s) = fst (exec d x t)" "same_view (snd (exec d x s)) (snd (exec d x t))"
    by (simp_all add: same_result_def)
  with Cons.IH[of "snd (exec d x s)" "snd (exec d x t)"] show ?case by simp
qed

text \<open>
  C9. \<^verbatim>\<open>start\<close> does the same whatever the persistence store holds, in particular
  whether or not the completion record of the configuration is set: the same outcome and
  the same state but for the console, the store itself left as it was; and every
  sequence of operations after it has the same outcomes and leads to the same state, up
  to the store and the console.
\<close>

theorem start_ignores_completion_record:
  "fst (start d c (s\<lparr>localStorage := st\<rparr>)) = fst (start d c s) \<and>
   same_view (snd (start d c (s\<lparr>localStorage := st\<rparr>))) (snd (start d c s)) \<and>
   localStorage (snd (start d c s)) = localStorage s \<and>
   same_view (run d' xs (snd (start d c (s\<lparr>localStorage := st\<rparr>)))) (run d' xs (snd (start d c s))) \<and>
   outcomes d' xs (snd (start d c (s\<lparr>localStorage := st\<rparr>))) = outcomes d' xs (snd (start d c s))"
proof -
  have "same_view (s\<lparr>localStorage := st\<rparr>) s" by (simp add: same_view_def)
  from start_view[OF this, of d c]
  have a: "fst (start d c (s\<lparr>localStorage := st\<rparr>)) = fst (start d c s)"
    and b: "same_view (snd (start d c (s\<lparr>localStorage := st\<rparr>))) (snd (start d c s))"
    by (simp_all add: same_result_def)
  from run_view[OF b, of d' xs] a b show ?thesis by (simp add: start_result(3))
qed


theorem start_ignores_completion_record_witness:
  "isCompleted (freshEngine\<lparr>localStorage := completedStore\<rparr>) (cfg_id closableTour) \<and>
   \<not> isCompleted freshEngine (cfg_id closableTour) \<and>
   fst (start 2 closableTour (freshEngine\<lparr>localStorage := completedStore\<rparr>)) =
     fst (start 2 closableTour freshEngine) \<and>
   same_view (snd (start 2 closableTour (freshEngine\<lparr>localStorage := completedStore\<rparr>)))
     (snd (start 2 closableTour freshEngine)) \<and>
   localStorage (snd (start 2 closableTour freshEngine)) = localStorage freshEngine \<and>
   same_view
     (run 2 [Next, Close] (snd (start 2 closableTour (freshEngine\<lparr>localStorage := completedStore\<rparr>))))
     (run 2 [Next, Close] (snd (start 2 closableTour freshEngine))) \<and>
   outcomes 2 [Next, Close]
     (snd (start 2 closableTour (freshEngine\<lparr>localStorage := completedStore\<rparr>))) =
   outcomes 2 [Next, Close] (snd (start 2 closableTour freshEngine))"
  using start_ignores_completion_record[where d = 2 and c = closableTour and s = freshEngine
      and st = completedStore and d' = 2 and xs = "[Next, Close]"]
  by (simp add: isCompleted_def completedStore_def example_defs)


section \<open>The wait-for-action gate\<close>

lemma forEach_hosts_trace:
  "\<forall>h\<in>set hs. is_host h \<Longrightarrow> \<exists>tr. snd (forEach d ev data hs s) = s\<lparr>trace := trace s @ tr\<rparr>"
proof (induction hs arbitrary: s)
  case Nil
  have "s = s\<lparr>trace := trace s @ []\<rparr>" by simp
  then show ?case by (metis forEach.simps(1) snd_conv)
next
  case (Cons h hs)
  then obtain f where h: "h = HostHandler f" by (cases h) auto
  let ?s1 = "s\<lparr>trace := trace s @ [Invoked f data]\<rparr>"
  from Cons obtain tr where a: "snd (forEach d ev data hs s) = s\<lparr>trace := trace s @ tr\<rparr>"
    by fastforce
  from Cons obtain tr1 where "snd (forEach d ev data hs ?s1) = ?s1\<lparr>trace := trace ?s1 @ tr1\<rparr>"
    by fastforce
  then have b: "snd (forEach d ev data hs ?s1) = s\<lparr>trace := trace s @ (Invoked f data # tr1)\<rparr>"
    by simp
  show ?case
  proof (cases "h \<in> set (registered s ev)")
    case False
    with a show ?thesis by auto
  next
    case True
    show ?thesis
    proof (cases "fn_throws f")
      case True
      with \<open>h \<in> set (registered s ev)\<close> h show ?thesis by auto
    next
      case False
      with \<open>h \<in> set (registered s ev)\<close> h b show ?thesis by auto
    qed
  qed
qed

lemma emit_hosts_trace:
  assumes "\<forall>h\<in>set (registered s ev). is_host h"
  shows "\<exists>tr. snd (emit d ev data s) = s\<lparr>trace := trace s @ Emitted ev data # tr\<rparr>"
proof -
  let ?s0 = "s\<lparr>trace := trace s @ [Emitted ev data]\<rparr>"
  from forEach_hosts_trace[OF assms, of d ev data ?s0]
  obtain tr where "snd (forEach d ev data (registered s ev) ?s0) = ?s0\<lparr>trace := trace ?s0 @ tr\<rparr>"
    by blast
  then have "snd (emit d ev data s) = s\<lparr>trace := trace s @ Emitted ev data # tr\<rparr>" by simp
  then show ?thesis by blast
qed

lemma listening_trace [simp]: "listening e n (s\<lparr>trace := t\<rparr>) = listening e n s"
  by (simp add: listening_def)

lemma calm_upd [simp]:
  "calm n (s\<lparr>trace := t\<rparr>) = calm n s"
  "calm n (s\<lparr>currentStepIndex := i\<rparr>) = calm n s"
  "calm n (s\<lparr>isWaitingForAction := w\<rparr>) = calm n s"
  "calm n (s\<lparr>targetRect := r\<rparr>) = calm n s"
  "calm n (s\<lparr>timers := ts\<rparr>) = calm n s"
  by (simp_all add: calm_def hostsOnly_def registered_def)

lemma busSettled_cleanup:
  assumes "busSettled s"
  shows "calm (nextId s) (cleanupActionListener s)"
proof (cases "currentActionHandler s")
  case None
  with assms show ?thesis
    by (auto simp: cleanupActionListener_def calm_def busSettled_def hostsOnly_def)
next
  case (Some a)
  obtain e h where a: "a = (e, h)" by (cases a)
  have "hostsOnly ((off e h s)\<lparr>currentActionHandler := None\<rparr>)"
    unfolding hostsOnly_def
  proof (intro allI ballI)
    fix ev h' assume "h' \<in> set (registered ((off e h s)\<lparr>currentActionHandler := None\<rparr>) ev)"
    then have m: "h' \<in> set (registered s ev)" and ne: "\<not> (ev = e \<and> h' = h)"
      by (auto simp: registered_off split: if_splits)
    from assms m have "is_host h' \<or> currentActionHandler s = Some (ev, h')"
      by (auto simp: busSettled_def)
    with Some a ne show "is_host h'" by auto
  qed
  moreover have "nextId ((off e h s)\<lparr>currentActionHandler := None\<rparr>) = nextId s"
    by (simp add: off_def split: option.splits)
  ultimately show ?thesis using Some a by (simp add: cleanupActionListener_def calm_def)
qed

lemma calm_call: "calm n s \<Longrightarrow> calm n (snd (call k cb s))"
  by (simp add: call_def split: option.splits)

lemma calm_updateTargetRect: "calm n s \<Longrightarrow> calm n (updateTargetRect s)"
  by (simp add: updateTargetRect_def split: option.splits)

lemma calm_scroll: "calm n s \<Longrightarrow> calm n (scrollElementIntoView r p s)"
  by (auto simp: scrollElementIntoView_def Let_def split: prod.splits)

lemma setup_listening:
  assumes "calm n s" and "isWaitingForAction s"
  shows "listening e n (setupActionListener e tmo s)"
proof -
  let ?h = "ActionHandler n e"
  let ?s2 = "(on e ?h (s\<lparr>nextId := Suc n\<rparr>))\<lparr>currentActionHandler := Some (e, ?h)\<rparr>"
  have reg: "\<And>ev. set (registered ?s2 ev) = (if ev = e then insert ?h (set (registered s e))
                                               else set (registered s ev))"
    by (auto simp: registered_def on_def split: option.splits)
  have "isWaitingForAction ?s2" using assms(2) by (simp add: on_def split: option.splits)
  moreover have "\<forall>ev. \<forall>h\<in>set (registered ?s2 ev). is_host h \<or> (ev = e \<and> h = ?h)"
    using assms(1) unfolding reg by (auto simp: calm_def hostsOnly_def)
  moreover have "?h \<in> set (registered ?s2 e)" unfolding reg by simp
  ultimately have l: "listening e n ?s2" unfolding listening_def by simp
  have "listening e n (?s2\<lparr>timers := ts\<rparr>)" for ts
    using l by (simp add: listening_def registered_def)
  with l assms(1) show ?thesis
    by (auto simp: setupActionListener_def Let_def calm_def split: option.splits)
qed

lemma emit_listening:
  assumes "listening e n s" and "ev \<noteq> e"
  shows "listening e n (snd (emit d ev data s))"
proof -
  from assms have "\<forall>h\<in>set (registered s ev). is_host h" by (auto simp: listening_def)
  from emit_hosts_trace[OF this, of d data] obtain tr where
    "snd (emit d ev data s) = s\<lparr>trace := trace s @ Emitted ev data # tr\<rparr>" by blast
  with assms(1) show ?thesis by (simp del: emit.simps)
qed

lemma andThen_Returned:
  "andThen r k = (Returned, s1) \<Longrightarrow> \<exists>s'. r = (Returned, s') \<and> k s' = (Returned, s1)"
  by (cases r; cases "fst r") (auto simp: andThen_def)

lemma scroll_timers:
  "timers (scrollElementIntoView r p s) = timers s \<or>
   timers (scrollElementIntoView r p s) = timers s @ [(350, RectTimer)]"
  by (auto simp: scrollElementIntoView_def Let_def split: prod.splits)

lemma enterStep_Returned:
  assumes "enterStep d st i s = (Returned, s1)" and "calm n s"
  shows "(\<exists>sc. set sc \<subseteq> {(350, RectTimer)} \<and> timers s1 = timers s @ sc @ fallback st n) \<and>
         (\<forall>w. waitForAction st = Some w \<and> wa_event w \<noteq> ''tutorial:step-change'' \<longrightarrow>
              listening (wa_event w) n s1)"
proof -
  let ?s1 = "s\<lparr>currentStepIndex := i, isWaitingForAction := False\<rparr>"
  let ?s2 = "updateTargetRect ?s1"
  let ?s3 = "(case target st of None \<Rightarrow> ?s2 | Some sel \<Rightarrow>
                if sel = [] then ?s2
                else (case dom ?s2 sel of None \<Rightarrow> ?s2
                      | Some r \<Rightarrow> scrollElementIntoView r
                           (case placement st of None \<Rightarrow> Bottom | Some p \<Rightarrow> p) ?s2))"
  let ?c = "\<lambda>s4. (case waitForAction st of None \<Rightarrow> s4
             | Some w \<Rightarrow> setupActionListener (wa_event w) (wa_timeout w)
                           (s4\<lparr>isWaitingForAction := True\<rparr>))"
  have c2: "calm n ?s2" using assms(2) by (intro calm_updateTargetRect) simp
  then have c3: "calm n ?s3" by (auto split: option.splits intro: calm_scroll)
  have t2: "timers ?s2 = timers s" by (simp add: updateTargetRect_def split: option.splits)
  have "timers ?s3 = timers ?s2 \<or> timers ?s3 = timers ?s2 @ [(350, RectTimer)]"
    using scroll_timers by (auto split: option.splits)
  then have "timers ?s3 = timers s @ [] \<or> timers ?s3 = timers s @ [(350, RectTimer)]"
    unfolding t2 by simp
  then obtain sc where sc: "set sc \<subseteq> {(350, RectTimer)}" "timers ?s3 = timers s @ sc"
  proof
    assume "timers ?s3 = timers s @ []"
    then show ?thesis using that[of "[]"] by simp
  next
    assume "timers ?s3 = timers s @ [(350, RectTimer)]"
    then show ?thesis using that[of "[(350, RectTimer)]"] by simp
  qed
  have "andThen (call OnEnter (onEnter st) ?s3)
          (\<lambda>s4. emit d ''tutorial:step-change'' (StepChange st i) (?c s4)) = (Returned, s1)"
    using assms(1) by (simp add: enterStep_def Let_def del: emit.simps)
  from andThen_Returned[OF this] obtain s4 where
    cl: "call OnEnter (onEnter st) ?s3 = (Returned, s4)" and
    em: "emit d ''tutorial:step-change'' (StepChange st i) (?c s4) = (Returned, s1)" by blast
  have c4: "calm n s4" using calm_call[OF c3, of OnEnter "onEnter st"] cl by simp
  have t4: "timers s4 = timers s @ sc" using cl sc(2) by (auto simp: call_def split: option.splits)
  have n4: "nextId s4 = n" using c4 by (simp add: calm_def)
  have t5: "timers (?c s4) = timers s4 @ fallback st n"
    using n4 by (auto simp: fallback_def setupActionListener_def Let_def on_def split: option.splits)
  have "timers s1 = timers (?c s4)"
    using emit_frame[of "?c s4" d "''tutorial:step-change''" "StepChange st i"] em
    by (simp add: frame_def del: emit.simps)
  with t5 t4 sc(1) have A: "\<exists>sc. set sc \<subseteq> {(350, RectTimer)} \<and> timers s1 = timers s @ sc @ fallback st n"
    by auto
  have B: "listening (wa_event w) n s1"
    if w: "waitForAction st = Some w" "wa_event w \<noteq> ''tutorial:step-change''" for w
  proof -
    have "listening (wa_event w) n (?c s4)"
      unfolding w(1) option.case by (rule setup_listening) (simp_all add: c4)
    from emit_listening[OF this, of "''tutorial:step-change''" d "StepChange st i"] w(2) em
    show ?thesis by (simp del: emit.simps)
  qed
  from A B show ?thesis by blast
qed

lemma goToStep_Returned:
  assumes "busSettled s" and "config s = Some c" and "nth_opt (steps c) i = Some st"
    and "goToStep d i s = (Returned, s1)"
  shows "(\<exists>sc. set sc \<subseteq> {(350, RectTimer)} \<and>
              timers s1 = timers s @ sc @ fallback st (nextId s)) \<and>
         (\<forall>w. waitForAction st = Some w \<and> wa_event w \<noteq> ''tutorial:step-change'' \<longrightarrow>
              listening (wa_event w) (nextId s) s1)"
proof -
  let ?s1 = "cleanupActionListener s"
  let ?cb = "case currentStep ?s1 of None \<Rightarrow> None | Some cur \<Rightarrow> onExit cur"
  have "andThen (call OnExit ?cb ?s1) (enterStep d st i) = (Returned, s1)"
    using assms(2,3,4) by (simp add: goToStep_def Let_def)
  from andThen_Returned[OF this] obtain s2 where
    cl: "call OnExit ?cb ?s1 = (Returned, s2)" and en: "enterStep d st i s2 = (Returned, s1)"
    by blast
  have c: "calm (nextId s) s2"
    using calm_call[OF busSettled_cleanup[OF assms(1)], of OnExit ?cb] cl by simp
  have "timers s2 = timers s" using cl by (auto simp: call_def split: option.splits)
  with enterStep_Returned[OF en c] show ?thesis by simp
qed

lemma advanced_refl [simp]: "advanced s s"
  by (simp add: advanced_def)

lemma advanced_trans:
  assumes "advanced s s1" and "advanced s1 s2"
  shows "advanced s s2"
proof -
  from assms obtain tr tr' where "trace s1 = trace s @ tr" "trace s2 = trace s1 @ tr'"
    unfolding advanced_def by blast
  then have "trace s2 = trace s @ (tr @ tr')" by simp
  then have t: "\<exists>tr. trace s2 = trace s @ tr" by blast
  have r: "\<forall>ev. set (registered s2 ev) \<subseteq> set (registered s ev)"
    using assms unfolding advanced_def by (meson subset_trans)
  from assms t r show ?thesis by (simp add: advanced_def)
qed

lemma forEach_advanced: "advanced s (snd (forEach d ev data hs s))"
proof (rule dispatch_closure(2)[where R = advanced])
  fix s i e
  show "advanced s ((off e (ActionHandler i e) s)\<lparr>currentActionHandler := None\<rparr>)"
    by (auto simp: advanced_def registered_off) (simp_all add: off_def split: option.splits)
qed (auto intro: advanced_trans simp: advanced_def)

lemma is_host_peaceful: "peaceful h \<Longrightarrow> is_host h"
  by (cases h) simp_all

lemma invoke_gate:
  assumes "\<forall>h\<in>set (registered s ''tutorial:action-completed''). peaceful h"
  shows "\<exists>tr. invoke (Suc d) x (ActionHandler n e) s =
     (Returned,
      (off e (ActionHandler n e)
         (s\<lparr>isWaitingForAction := False,
            trace := trace s @ Emitted ''tutorial:action-completed'' (ActionCompleted e) # tr\<rparr>))
        \<lparr>currentActionHandler := None\<rparr>)"
proof -
  let ?s1 = "s\<lparr>isWaitingForAction := False\<rparr>"
  let ?ac = "''tutorial:action-completed''"
  have p: "\<forall>h\<in>set (registered ?s1 ?ac). peaceful h" using assms by simp
  then have h: "\<forall>h\<in>set (registered ?s1 ?ac). is_host h" by (blast intro: is_host_peaceful)
  have r: "fst (emit d ?ac (ActionCompleted e) ?s1) = Returned" by (rule emit_peaceful[OF p])
  from emit_hosts_trace[OF h, of d "ActionCompleted e"] obtain tr where
    "snd (emit d ?ac (ActionCompleted e) ?s1) =
       ?s1\<lparr>trace := trace ?s1 @ Emitted ?ac (ActionCompleted e) # tr\<rparr>" by blast
  with r have "emit d ?ac (ActionCompleted e) ?s1 =
       (Returned, ?s1\<lparr>trace := trace ?s1 @ Emitted ?ac (ActionCompleted e) # tr\<rparr>)"
    by (metis prod.collapse)
  then have "invoke (Suc d) x (ActionHandler n e) s =
     (Returned,
      (off e (ActionHandler n e)
         (s\<lparr>isWaitingForAction := False,
            trace := trace s @ Emitted ?ac (ActionCompleted e) # tr\<rparr>))
        \<lparr>currentActionHandler := None\<rparr>)"
    by (simp del: emit.simps)
  then show ?thesis by blast
qed

lemma opened_advanced:
  assumes "opened e n l s" and "advanced s s'"
  shows "opened e n l s'"
proof -
  from assms(2) obtain tr where tr: "trace s' = trace s @ tr" by (auto simp: advanced_def)
  have "set (drop l (trace s)) \<subseteq> set (drop l (trace s'))" unfolding tr by auto
  with assms show ?thesis by (auto simp: opened_def advanced_def)
qed

lemma opened_mono: "opened e n (Suc l) s \<Longrightarrow> opened e n l s"
  using set_drop_subset_set_drop[of l "Suc l" "trace s"] by (auto simp: opened_def)

lemma forEach_opens:
  assumes "\<forall>h\<in>set hs. peaceful h \<or> h = ActionHandler n e"
    and "\<forall>h\<in>set (registered s ''tutorial:action-completed''). peaceful h"
    and "e \<noteq> ''tutorial:action-completed''"
  shows "fst (forEach (Suc d) e x hs s) = Returned \<and>
         (ActionHandler n e \<in> set hs \<and> ActionHandler n e \<in> set (registered s e) \<longrightarrow>
            opened e n (length (trace s)) (snd (forEach (Suc d) e x hs s)))"
  using assms
proof (induction hs arbitrary: s)
  case Nil
  then show ?case by simp
next
  case (Cons h hs)
  let ?h0 = "ActionHandler n e"
  let ?ac = "''tutorial:action-completed''"
  have hs: "\<forall>h\<in>set hs. peaceful h \<or> h = ?h0" using Cons.prems(1) by simp
  show ?case
  proof (cases "h \<in> set (registered s e)")
    case False
    from Cons.IH[OF hs Cons.prems(2,3)] False show ?thesis by auto
  next
    case True
    show ?thesis
    proof (cases "h = ?h0")
      case h0: True
      from invoke_gate[OF Cons.prems(2), of d x n e] obtain tr where
        iv: "invoke (Suc d) x ?h0 s =
           (Returned,
            (off e ?h0 (s\<lparr>isWaitingForAction := False,
                trace := trace s @ Emitted ?ac (ActionCompleted e) # tr\<rparr>))
              \<lparr>currentActionHandler := None\<rparr>)" (is "_ = (Returned, ?s3)") by blast
      have reg3: "registered ?s3 ?ac = registered s ?ac"
        using Cons.prems(3) by (simp add: registered_off)
      have tr3: "trace ?s3 = trace s @ Emitted ?ac (ActionCompleted e) # tr"
        by (simp add: off_def split: option.splits)
      have o3: "opened e n (length (trace s)) ?s3"
        unfolding opened_def tr3
        by (simp add: registered_off) (simp add: off_def split: option.splits)
      from Cons.IH[OF hs, of ?s3] reg3 Cons.prems(2,3)
      have r: "fst (forEach (Suc d) e x hs ?s3) = Returned" by simp
      have "opened e n (length (trace s)) (snd (forEach (Suc d) e x hs ?s3))"
        by (rule opened_advanced[OF o3 forEach_advanced])
      with r iv True h0 show ?thesis by simp
    next
      case False
      with Cons.prems(1) have ph: "peaceful h" by simp
      then obtain f where f: "h = HostHandler f" "\<not> fn_throws f" by (cases h) auto
      let ?s1 = "s\<lparr>trace := trace s @ [Invoked f x]\<rparr>"
      from Cons.IH[OF hs, of ?s1] Cons.prems(2,3)
      have r: "fst (forEach (Suc d) e x hs ?s1) = Returned"
        and o: "?h0 \<in> set hs \<and> ?h0 \<in> set (registered s e) \<longrightarrow>
                  opened e n (Suc (length (trace s))) (snd (forEach (Suc d) e x hs ?s1))"
        by simp_all
      from o False have "?h0 \<in> set (h # hs) \<and> ?h0 \<in> set (registered s e) \<longrightarrow>
                  opened e n (length (trace s)) (snd (forEach (Suc d) e x hs ?s1))"
        by (auto intro: opened_mono)
      with r True f show ?thesis by simp
    qed
  qed
qed

lemma trigger_opens:
  assumes g: "listening e n s" and ne: "e \<noteq> ''tutorial:action-completed''"
    and p1: "\<forall>h\<in>set (registered s e). is_host h \<longrightarrow> peaceful h"
    and p2: "\<forall>h\<in>set (registered s ''tutorial:action-completed''). peaceful h"
  shows "fst (triggerAction (Suc d) e x s) = Returned \<and>
         opened e n (length (trace s)) (snd (triggerAction (Suc d) e x s))"
proof -
  let ?s0 = "s\<lparr>trace := trace s @ [Emitted e x]\<rparr>"
  have a: "\<forall>h\<in>set (registered s e). peaceful h \<or> h = ActionHandler n e"
    using g p1 by (auto simp: listening_def)
  have b: "ActionHandler n e \<in> set (registered s e)" using g by (simp add: listening_def)
  from forEach_opens[OF a, of ?s0 d x] p2 ne b
  have "fst (forEach (Suc d) e x (registered s e) ?s0) = Returned"
    and "opened e n (Suc (length (trace s))) (snd (forEach (Suc d) e x (registered s e) ?s0))"
    by simp_all
  then show ?thesis by (simp add: triggerAction_def opened_mono)
qed

lemma gated_upd [simp]:
  "gated e n (s\<lparr>trace := t\<rparr>) = gated e n s"
  "gated e n (s\<lparr>targetRect := r\<rparr>) = gated e n s"
  "gated e n (s\<lparr>localStorage := st\<rparr>) = gated e n s"
  "gated e n (s\<lparr>dom := q, viewportHeight := vh, scrollY := sy\<rparr>) = gated e n s"
  by (simp_all add: gated_def listening_def rectTimersOnly_def registered_def)

lemma gated_updateTargetRect: "gated e n s \<Longrightarrow> gated e n (updateTargetRect s)"
  by (simp add: updateTargetRect_def split: option.splits)

lemma emit_gated:
  assumes "gated e n s" and "ev \<noteq> e"
  shows "gated e n (snd (emit d ev data s))"
proof -
  from assms have "\<forall>h\<in>set (registered s ev). is_host h" by (auto simp: gated_def listening_def)
  from emit_hosts_trace[OF this, of d data] obtain tr where
    "snd (emit d ev data s) = s\<lparr>trace := trace s @ Emitted ev data # tr\<rparr>" by blast
  with assms(1) show ?thesis by (simp del: emit.simps)
qed

lemma gated_on: "gated e n s \<Longrightarrow> gated e n (on m (HostHandler f) s)"
proof -
  assume g: "gated e n s"
  let ?s' = "on m (HostHandler f) s"
  have reg: "\<And>ev. set (registered ?s' ev) =
      (if ev = m then insert (HostHandler f) (set (registered s m)) else set (registered s ev))"
    by (auto simp: registered_def on_def split: option.splits)
  have f: "isWaitingForAction ?s' = isWaitingForAction s"
    "currentActionHandler ?s' = currentActionHandler s" "timers ?s' = timers s"
    by (simp_all add: on_def split: option.splits)
  show ?thesis using g unfolding gated_def listening_def rectTimersOnly_def f reg by auto
qed

lemma gated_off: "gated e n s \<Longrightarrow> gated e n (off m (HostHandler f) s)"
proof -
  assume g: "gated e n s"
  let ?s' = "off m (HostHandler f) s"
  have reg: "\<And>ev. set (registered ?s' ev) =
      (if ev = m then set (registered s m) - {HostHandler f} else set (registered s ev))"
    by (auto simp: registered_off)
  have f: "isWaitingForAction ?s' = isWaitingForAction s"
    "currentActionHandler ?s' = currentActionHandler s" "timers ?s' = timers s"
    by (simp_all add: off_def split: option.splits)
  show ?thesis using g unfolding gated_def listening_def rectTimersOnly_def f reg by auto
qed

lemma gated_fireTimer: "gated e n s \<Longrightarrow> gated e n (fireTimer k s)"
proof (cases "k < length (timers s)")
  case False
  assume "gated e n s"
  with False show ?thesis by (simp add: fireTimer_def)
next
  case True
  assume g: "gated e n s"
  let ?s' = "s\<lparr>timers := take k (timers s) @ drop (Suc k) (timers s)\<rparr>"
  from g True have cb: "snd (timers s ! k) = RectTimer"
    by (auto simp: gated_def rectTimersOnly_def)
  have "set (take k (timers s) @ drop (Suc k) (timers s)) \<subseteq> set (timers s)"
    using set_take_subset[of k "timers s"] set_drop_subset[of "Suc k" "timers s"] by auto
  with g have "gated e n ?s'"
    by (auto simp: gated_def listening_def rectTimersOnly_def registered_def)
  then have "gated e n (updateTargetRect ?s')" by (rule gated_updateTargetRect)
  with True cb show ?thesis by (simp add: fireTimer_def runTimer_def)
qed

lemma exec_gated:
  assumes "gated e n s" and "quiet_op e x"
  shows "gated e n (snd (exec d x s))"
proof (cases x)
  case (TriggerAction m p)
  with assms show ?thesis by (simp add: triggerAction_def emit_gated del: emit.simps)
next
  case (Emit m p)
  with assms show ?thesis by (simp add: emit_gated del: emit.simps)
next
  case Next
  from assms(1) have "\<not> canGoNext s" by (simp add: canGoNext_def gated_def listening_def)
  with Next assms show ?thesis by (simp add: next_step_def)
next
  case UpdateTargetRect
  with assms show ?thesis by (simp add: gated_updateTargetRect)
next
  case (On m f)
  with assms show ?thesis by (simp add: gated_on)
next
  case (Off m f)
  with assms show ?thesis by (simp add: gated_off)
next
  case (ResetCompletion i)
  with assms show ?thesis by (simp add: resetCompletion_def)
next
  case (FireTimer k)
  with assms show ?thesis by (simp add: gated_fireTimer)
next
  case (Environment q vh sy)
  with assms show ?thesis by simp
qed (use assms in simp_all)

lemma run_gated:
  "gated e n s \<Longrightarrow> \<forall>x\<in>set xs. quiet_op e x \<Longrightarrow> gated e n (run d xs s)"
  by (induction xs arbitrary: s) (simp_all add: exec_gated)

lemma fallback_untimed:
  "waitForAction st = Some w \<Longrightarrow> wa_timeout w = None \<or> wa_timeout w = Some 0 \<Longrightarrow>
   fallback st n = []"
  by (auto simp: fallback_def)

lemma goToStep_gated:
  assumes "settled s" and "config s = Some c" and "nth_opt (steps c) i = Some st"
    and "waitForAction st = Some w"
    and "wa_timeout w = None \<or> wa_timeout w = Some 0"
    and "wa_event w \<noteq> ''tutorial:step-change''"
    and "goToStep d i s = (Returned, s1)"
  shows "gated (wa_event w) (nextId s) s1"
proof -
  from assms(1) have b: "busSettled s" and r: "rectTimersOnly s" by (simp_all add: settled_def)
  from goToStep_Returned[OF b assms(2,3,7)] assms(4,6) obtain sc where
    sc: "set sc \<subseteq> {(350, RectTimer)}" "timers s1 = timers s @ sc @ fallback st (nextId s)"
    and l: "listening (wa_event w) (nextId s) s1" by blast
  have "rectTimersOnly s1"
    using r sc unfolding fallback_untimed[OF assms(4,5)] by (auto simp: rectTimersOnly_def)
  with l show ?thesis by (simp add: gated_def)
qed

text \<open>
  The claim C4 as stated fails: a step may wait for \<^verbatim>\<open>tutorial:step-change\<close>, the event
  that \<^verbatim>\<open>goToStep\<close> itself emits right after it has registered the listener; the flag
  is then already cleared when the step has been entered, with no \<^verbatim>\<open>triggerAction\<close>.
\<close>

theorem gate_counterexample:
  "fst (start 2 stepChangeTour freshEngine) = Returned \<and>
   currentStep (snd (start 2 stepChangeTour freshEngine)) = Some (hd (steps stepChangeTour)) \<and>
   waitForAction (hd (steps stepChangeTour)) =
     Some \<lparr>wa_event = ''tutorial:step-change'', wa_timeout = None\<rparr> \<and>
   \<not> isWaitingForAction (snd (start 2 stepChangeTour freshEngine))"
  by (simp add: engine_defs example_defs stepChangeTour_def eval_nat_numeral)

lemma host_peaceful:
  "is_host h \<Longrightarrow> \<forall>f. h = HostHandler f \<longrightarrow> \<not> fn_throws f \<Longrightarrow> peaceful h"
  by (cases h) auto

text \<open>
  C4 (as the code has it). Take a step that waits for an event \<open>e\<close> with no timeout,
  \<open>e\<close> being neither \<^verbatim>\<open>tutorial:step-change\<close> nor \<^verbatim>\<open>tutorial:action-completed\<close>, entered by
  a \<^verbatim>\<open>goToStep\<close> that returns, in a settled engine. Then the flag is set when the step
  has been entered and stays set under every sequence of operations that neither
  publishes \<open>e\<close> nor navigates nor closes. If no host handler subscribed to \<open>e\<close> or to
  \<^verbatim>\<open>tutorial:action-completed\<close> throws, \<^verbatim>\<open>triggerAction e\<close> then returns (one nested
  \<^verbatim>\<open>emit\<close> is all the stack it needs), the flag is cleared,
  \<^verbatim>\<open>tutorial:action-completed\<close> is emitted with \<open>e\<close>, and the listener is deregistered and
  no longer tracked.
\<close>

theorem gate_opens_on_its_event:
  assumes "settled s" and "config s = Some c" and "nth_opt (steps c) i = Some st"
    and "waitForAction st = Some w" and "wa_timeout w = None"
    and "wa_event w \<noteq> ''tutorial:step-change''"
    and "wa_event w \<noteq> ''tutorial:action-completed''"
    and "goToStep d i s = (Returned, u)"
    and "\<forall>x\<in>set xs. quiet_op (wa_event w) x"
    and "\<forall>f. HostHandler f \<in> set (registered (run d' xs u) (wa_event w)) \<union>
                            set (registered (run d' xs u) ''tutorial:action-completed'')
            \<longrightarrow> \<not> fn_throws f"
  shows "isWaitingForAction u \<and> isWaitingForAction (run d' xs u) \<and>
         fst (triggerAction (Suc k) (wa_event w) p (run d' xs u)) = Returned \<and>
         \<not> isWaitingForAction (snd (triggerAction (Suc k) (wa_event w) p (run d' xs u))) \<and>
         Emitted ''tutorial:action-completed'' (ActionCompleted (wa_event w)) \<in>
           set (drop (length (trace (run d' xs u)))
                  (trace (snd (triggerAction (Suc k) (wa_event w) p (run d' xs u))))) \<and>
         ActionHandler (nextId s) (wa_event w) \<notin>
           set (registered (snd (triggerAction (Suc k) (wa_event w) p (run d' xs u))) (wa_event w)) \<and>
         currentActionHandler (snd (triggerAction (Suc k) (wa_event w) p (run d' xs u))) = None"
proof -
  let ?e = "wa_event w" and ?S = "run d' xs u"
  have g1: "gated ?e (nextId s) u"
    using goToStep_gated[OF assms(1,2,3,4) _ assms(6,8)] assms(5) by simp
  then have g2: "gated ?e (nextId s) ?S" using assms(9) by (rule run_gated)
  then have l: "listening ?e (nextId s) ?S" by (simp add: gated_def)
  have p1: "\<forall>h\<in>set (registered ?S ?e). is_host h \<longrightarrow> peaceful h"
  proof (intro ballI impI)
    fix h assume m: "h \<in> set (registered ?S ?e)" and ih: "is_host h"
    from m assms(10) have "\<forall>f. h = HostHandler f \<longrightarrow> \<not> fn_throws f" by blast
    with ih show "peaceful h" by (rule host_peaceful)
  qed
  have p2: "\<forall>h\<in>set (registered ?S ''tutorial:action-completed''). peaceful h"
  proof
    fix h assume m: "h \<in> set (registered ?S ''tutorial:action-completed'')"
    from l have "\<forall>h\<in>set (registered ?S ''tutorial:action-completed'').
        is_host h \<or> (''tutorial:action-completed'' = ?e \<and> h = ActionHandler (nextId s) ?e)"
      unfolding listening_def by blast
    with m assms(7) have ih: "is_host h" by auto
    from m assms(10) have "\<forall>f. h = HostHandler f \<longrightarrow> \<not> fn_throws f" by blast
    with ih show "peaceful h" by (rule host_peaceful)
  qed
  from trigger_opens[OF l assms(7) p1 p2, of k p] g1 g2
  show ?thesis by (simp add: opened_def gated_def listening_def)
qed

lemmas gate_defs = settled_def busSettled_def rectTimersOnly_def bystanders_def lateGateTour_def
  threeSubscribers_def

theorem gate_opens_on_its_event_witness:
  "settled (snd (start 1 (lateGateTour None) threeSubscribers)) \<and>
   config (snd (start 1 (lateGateTour None) threeSubscribers)) = Some (lateGateTour None) \<and>
   fst (goToStep 1 1 (snd (start 1 (lateGateTour None) threeSubscribers))) = Returned \<and>
   list_all (quiet_op ''clicked'') bystanders \<and>
   registered
     (run 1 bystanders (snd (goToStep 1 1 (snd (start 1 (lateGateTour None) threeSubscribers)))))
     ''clicked'' = [ActionHandler 0 ''clicked'', HostHandler (HostFn 4 False)] \<and>
   isWaitingForAction (snd (goToStep 1 1 (snd (start 1 (lateGateTour None) threeSubscribers)))) \<and>
   isWaitingForAction
     (run 1 bystanders (snd (goToStep 1 1 (snd (start 1 (lateGateTour None) threeSubscribers))))) \<and>
   fst (triggerAction 1 ''clicked'' NoData
     (run 1 bystanders (snd (goToStep 1 1 (snd (start 1 (lateGateTour None) threeSubscribers))))))
     = Returned \<and>
   \<not> isWaitingForAction (snd (triggerAction 1 ''clicked'' NoData
     (run 1 bystanders (snd (goToStep 1 1 (snd (start 1 (lateGateTour None) threeSubscribers)))))))"
  using gate_opens_on_its_event[where s = "snd (start 1 (lateGateTour None) threeSubscribers)"
      and c = "lateGateTour None" and i = 1 and st = "steps (lateGateTour None) ! 1"
      and w = "\<lparr>wa_event = ''clicked'', wa_timeout = None\<rparr>" and d = 1 and d' = 1
      and u = "snd (goToStep 1 1 (snd (start 1 (lateGateTour None) threeSubscribers)))"
      and xs = bystanders and k = 0 and p = NoData]
  by (simp add: engine_defs2 example_defs gate_defs eval_nat_numeral)

text \<open>
  A timeout of 0 is falsy: \<^verbatim>\<open>setupActionListener\<close> does with it what it does with no
  timeout and schedules nothing. In a settled engine the gate of such a step therefore
  stays up under every sequence of operations that neither publishes its event nor
  navigates nor closes.
\<close>

lemma zero_timeout_schedules_nothing:
  assumes "settled s" and "config s = Some c" and "nth_opt (steps c) i = Some st"
    and "waitForAction st = Some w" and "wa_timeout w = Some 0"
    and "wa_event w \<noteq> ''tutorial:step-change''"
    and "goToStep d i s = (Returned, u)"
    and "\<forall>x\<in>set xs. quiet_op (wa_event w) x"
  shows "setupActionListener (wa_event w) (Some 0) v = setupActionListener (wa_event w) None v \<and>
         timers (setupActionListener (wa_event w) (Some 0) v) = timers v \<and>
         (\<forall>tm\<in>set (timers u). snd tm = RectTimer) \<and>
         isWaitingForAction u \<and> isWaitingForAction (run d' xs u) \<and>
         (\<forall>tm\<in>set (timers (run d' xs u)). snd tm = RectTimer)"
proof -
  have g1: "gated (wa_event w) (nextId s) u"
    using goToStep_gated[OF assms(1,2,3,4) _ assms(6,7)] assms(5) by simp
  then have g2: "gated (wa_event w) (nextId s) (run d' xs u)" using assms(8) by (rule run_gated)
  have "timers (setupActionListener (wa_event w) (Some 0) v) = timers v"
    by (simp add: setupActionListener_def Let_def on_def split: option.splits)
  moreover have "setupActionListener (wa_event w) (Some 0) v = setupActionListener (wa_event w) None v"
    by (simp add: setupActionListener_def Let_def)
  ultimately show ?thesis
    using g1 g2 by (simp add: gated_def listening_def rectTimersOnly_def)
qed

text \<open>
  An instance: the second step of a tour waits for \<^verbatim>\<open>clicked\<close> with timeout 0.
\<close>

lemma zero_timeout_example:
  "settled (snd (start 1 (lateGateTour (Some 0)) threeSubscribers)) \<and>
   config (snd (start 1 (lateGateTour (Some 0)) threeSubscribers)) = Some (lateGateTour (Some 0)) \<and>
   fst (goToStep 1 1 (snd (start 1 (lateGateTour (Some 0)) threeSubscribers))) = Returned \<and>
   list_all (quiet_op ''clicked'') bystanders \<and>
   timers (setupActionListener ''clicked'' (Some 0) freshEngine) = timers freshEngine \<and>
   timers (snd (goToStep 1 1 (snd (start 1 (lateGateTour (Some 0)) threeSubscribers)))) = [] \<and>
   isWaitingForAction (snd (goToStep 1 1 (snd (start 1 (lateGateTour (Some 0)) threeSubscribers)))) \<and>
   isWaitingForAction
     (run 1 bystanders (snd (goToStep 1 1 (snd (start 1 (lateGateTour (Some 0)) threeSubscribers)))))"
  using zero_timeout_schedules_nothing[where s = "snd (start 1 (lateGateTour (Some 0)) threeSubscribers)"
      and c = "lateGateTour (Some 0)" and i = 1 and st = "steps (lateGateTour (Some 0)) ! 1"
      and w = "\<lparr>wa_event = ''clicked'', wa_timeout = Some 0\<rparr>" and d = 1 and d' = 1
      and u = "snd (goToStep 1 1 (snd (start 1 (lateGateTour (Some 0)) threeSubscribers)))"
      and xs = bystanders and v = freshEngine]
  by (simp add: engine_defs2 example_defs gate_defs eval_nat_numeral)

lemma runTimer_gate:
  "\<not> isWaitingForAction (runTimer (GateTimer e h) v)"
  "trace (runTimer (GateTimer e h) v) = trace v"
  "\<not> isWaitingForAction v \<Longrightarrow> runTimer (GateTimer e h) v = v"
  "isWaitingForAction v \<Longrightarrow> h \<notin> set (registered (runTimer (GateTimer e h) v) e)"
  by (simp_all add: runTimer_def off_def registered_def split: option.splits)

text \<open>
  The fallback of a gate with a timeout other than 0, in an engine whose bus is settled:
  entering the step leaves the gate up and the fallback as the last pending timer; when
  it fires, the flag is cleared and the listener deregistered, and nothing is emitted. In
  any state, the callback leaves the flag cleared and the trace as it was, and does
  nothing at all when the flag is not set.
\<close>

lemma timeout_clears_gate:
  assumes "busSettled s" and "config s = Some c" and "nth_opt (steps c) i = Some st"
    and "waitForAction st = Some w" and "wa_timeout w = Some t" and "t \<noteq> 0"
    and "wa_event w \<noteq> ''tutorial:step-change''"
    and "goToStep d i s = (Returned, u)"
  shows "isWaitingForAction u \<and> timers u \<noteq> [] \<and>
         last (timers u) = (t, GateTimer (wa_event w) (ActionHandler (nextId s) (wa_event w))) \<and>
         \<not> isWaitingForAction (fireTimer (length (timers u) - 1) u) \<and>
         trace (fireTimer (length (timers u) - 1) u) = trace u \<and>
         ActionHandler (nextId s) (wa_event w) \<notin>
           set (registered (fireTimer (length (timers u) - 1) u) (wa_event w)) \<and>
         \<not> isWaitingForAction (runTimer (GateTimer (wa_event w) h) v) \<and>
         trace (runTimer (GateTimer (wa_event w) h) v) = trace v \<and>
         (\<not> isWaitingForAction v \<longrightarrow> runTimer (GateTimer (wa_event w) h) v = v)"
proof -
  let ?e = "wa_event w"
  let ?h = "ActionHandler (nextId s) ?e"
  let ?k = "length (timers u) - 1"
  from goToStep_Returned[OF assms(1,2,3,8)] assms(4,7) obtain sc where
    tm: "timers u = timers s @ sc @ fallback st (nextId s)"
    and l: "listening ?e (nextId s) u" by blast
  have fb: "fallback st (nextId s) = [(t, GateTimer ?e ?h)]"
    using assms(4,5,6) by (simp add: fallback_def)
  have ne: "timers u \<noteq> []" and la: "last (timers u) = (t, GateTimer ?e ?h)"
    unfolding tm fb by simp_all
  have w: "isWaitingForAction u" using l by (simp add: listening_def)
  let ?u' = "u\<lparr>timers := take ?k (timers u) @ drop (Suc ?k) (timers u)\<rparr>"
  have k: "?k < length (timers u)" using ne by simp
  have "timers u ! ?k = (t, GateTimer ?e ?h)" using la ne by (simp add: last_conv_nth)
  with k have f: "fireTimer ?k u = runTimer (GateTimer ?e ?h) ?u'" by (simp add: fireTimer_def)
  have w': "isWaitingForAction ?u'" using w by simp
  have "\<not> isWaitingForAction (fireTimer ?k u)" "trace (fireTimer ?k u) = trace u"
    "?h \<notin> set (registered (fireTimer ?k u) ?e)"
    unfolding f using runTimer_gate(1,2)[of ?e ?h ?u'] runTimer_gate(4)[OF w', of ?h ?e]
    by simp_all
  with w ne la show ?thesis by (simp add: runTimer_gate)
qed

text \<open>
  An instance: timeout 1000; the timer fires at once, or after the event.
\<close>

lemma timeout_clears_gate_example:
  "busSettled (snd (start 1 (lateGateTour (Some 1000)) threeSubscribers)) \<and>
   config (snd (start 1 (lateGateTour (Some 1000)) threeSubscribers)) =
     Some (lateGateTour (Some 1000)) \<and>
   fst (goToStep 1 1 (snd (start 1 (lateGateTour (Some 1000)) threeSubscribers))) = Returned \<and>
   isWaitingForAction (snd (goToStep 1 1 (snd (start 1 (lateGateTour (Some 1000)) threeSubscribers)))) \<and>
   timers (snd (goToStep 1 1 (snd (start 1 (lateGateTour (Some 1000)) threeSubscribers)))) =
     [(1000, GateTimer ''clicked'' (ActionHandler 0 ''clicked''))] \<and>
   \<not> isWaitingForAction
     (fireTimer 0 (snd (goToStep 1 1 (snd (start 1 (lateGateTour (Some 1000)) threeSubscribers))))) \<and>
   trace (fireTimer 0 (snd (goToStep 1 1 (snd (start 1 (lateGateTour (Some 1000)) threeSubscribers)))))
     = trace (snd (goToStep 1 1 (snd (start 1 (lateGateTour (Some 1000)) threeSubscribers)))) \<and>
   \<not> isWaitingForAction (snd (triggerAction 1 ''clicked'' NoData
       (snd (goToStep 1 1 (snd (start 1 (lateGateTour (Some 1000)) threeSubscribers)))))) \<and>
   runTimer (GateTimer ''clicked'' (ActionHandler 0 ''clicked''))
     (snd (triggerAction 1 ''clicked'' NoData
       (snd (goToStep 1 1 (snd (start 1 (lateGateTour (Some 1000)) threeSubscribers)))))) =
     snd (triggerAction 1 ''clicked'' NoData
       (snd (goToStep 1 1 (snd (start 1 (lateGateTour (Some 1000)) threeSubscribers)))))"
  using timeout_clears_gate[where s = "snd (start 1 (lateGateTour (Some 1000)) threeSubscribers)"
      and c = "lateGateTour (Some 1000)" and i = 1 and st = "steps (lateGateTour (Some 1000)) ! 1"
      and w = "\<lparr>wa_event = ''clicked'', wa_timeout = Some 1000\<rparr>" and d = 1 and t = 1000
      and u = "snd (goToStep 1 1 (snd (start 1 (lateGateTour (Some 1000)) threeSubscribers)))"
      and h = "ActionHandler 0 ''clicked''"
      and v = "snd (triggerAction 1 ''clicked'' NoData
       (snd (goToStep 1 1 (snd (start 1 (lateGateTour (Some 1000)) threeSubscribers)))))"]
  by (simp add: engine_defs2 example_defs gate_defs eval_nat_numeral)

text \<open>
  C5 (the code at a concrete input). The fallback timer of a step is never cancelled,
  and its callback checks only whether the flag is set, not whose gate it is. Step 1
  waits for \<^verbatim>\<open>first\<close> with a timeout, the event arrives and clears its gate, \<^verbatim>\<open>next\<close>
  enters step 2, which waits for \<^verbatim>\<open>second\<close>; then the stale timer of step 1 fires: it
  clears the flag of step 2 and untracks the listener of step 2, which stays subscribed.
\<close>

theorem stale_timeout_clears_later_gate:
  "timers (run 1 [Start (staleTour None), TriggerAction ''first'' NoData] freshEngine) =
     [(1000, GateTimer ''first'' (ActionHandler 0 ''first''))] \<and>
   \<not> isWaitingForAction (run 1 [Start (staleTour None), TriggerAction ''first'' NoData] freshEngine) \<and>
   currentStepIndex (run 1 [Start (staleTour None), TriggerAction ''first'' NoData, Next] freshEngine) = 1 \<and>
   isWaitingForAction (run 1 [Start (staleTour None), TriggerAction ''first'' NoData, Next] freshEngine) \<and>
   currentStepIndex
     (run 1 [Start (staleTour None), TriggerAction ''first'' NoData, Next, FireTimer 0] freshEngine) = 1 \<and>
   \<not> isWaitingForAction
     (run 1 [Start (staleTour None), TriggerAction ''first'' NoData, Next, FireTimer 0] freshEngine) \<and>
   currentActionHandler
     (run 1 [Start (staleTour None), TriggerAction ''first'' NoData, Next, FireTimer 0] freshEngine) = None \<and>
   registered
     (run 1 [Start (staleTour None), TriggerAction ''first'' NoData, Next, FireTimer 0] freshEngine)
     ''second'' = [ActionHandler 1 ''second'']"
  by (simp add: engine_defs2 example_defs staleTour_def eval_nat_numeral)

text \<open>
  C10 (the code at a concrete input). Step 2 waits for \<^verbatim>\<open>second\<close> with timeout 0 and
  schedules no timer of its own; its gate is nevertheless cleared, without the event and
  without navigation, by the stale fallback timer of step 1.
\<close>

theorem zero_timeout_gate_cleared_by_stale_timer:
  "map_option wa_timeout
     (waitForAction (steps (staleTour (Some 0)) ! 1)) = Some (Some 0) \<and>
   currentStepIndex (run 1 [Start (staleTour (Some 0)), TriggerAction ''first'' NoData, Next] freshEngine) = 1 \<and>
   isWaitingForAction (run 1 [Start (staleTour (Some 0)), TriggerAction ''first'' NoData, Next] freshEngine) \<and>
   currentStepIndex
     (run 1 [Start (staleTour (Some 0)), TriggerAction ''first'' NoData, Next, FireTimer 0] freshEngine) = 1 \<and>
   \<not> isWaitingForAction
     (run 1 [Start (staleTour (Some 0)), TriggerAction ''first'' NoData, Next, FireTimer 0] freshEngine)"
  by (simp add: engine_defs2 example_defs staleTour_def eval_nat_numeral)


section \<open>The scenarios of the repository's tests\<close>

text \<open>
  The model run on the scenarios of \<^verbatim>\<open>useTutorial.test.ts\<close>: progress of a four-step
  tour, navigation at both ends and by id, the gate and its timeout, completion.
\<close>

lemmas test_defs = engine_defs2 example_defs progress_def skipTo_def fourSteps_def
  eval_nat_numeral

lemma test_progress:
  "progress (run 1 [Start fourSteps] freshEngine) = 25"
  "progress (run 1 [Start fourSteps, Next] freshEngine) = 50"
  "progress (run 1 [Start fourSteps, Next, Next] freshEngine) = 75"
  "progress (run 1 [Start fourSteps, Next, Next, Next] freshEngine) = 100"
  by (simp_all add: test_defs)

lemma test_navigation:
  "currentStepIndex (run 1 [Start fourSteps, Previous] freshEngine) = 0"
  "currentStepIndex (run 1 [Start fourSteps, Next, Previous] freshEngine) = 0"
  "map_option step_id (currentStep (run 1 [Start fourSteps, SkipTo ''step3''] freshEngine)) =
     Some ''step3''"
  "currentStepIndex (run 1 [Start fourSteps, SkipTo ''step4'', Next] freshEngine) = 3"
  "run 1 [Start fourSteps, SkipTo ''none''] freshEngine = run 1 [Start fourSteps] freshEngine"
  by (simp_all add: test_defs)

lemma test_waitForAction:
  "isWaitingForAction (run 1 [Start gatedTour] freshEngine)"
  "\<not> canGoNext (run 1 [Start gatedTour] freshEngine)"
  "\<not> isWaitingForAction (run 1 [Start gatedTour, TriggerAction ''clicked'' NoData] freshEngine)"
  "\<not> isWaitingForAction (run 1 [Start gatedTour, Close] freshEngine)"
  by (simp_all add: test_defs gatedTour_def)

lemma test_complete:
  "isCompleted (run 1 [Start fourSteps, Complete] freshEngine) ''test''"
  "\<not> isActive (run 1 [Start fourSteps, Complete] freshEngine)"
  "\<not> isCompleted (run 1 [Start fourSteps, Complete, ResetCompletion ''test''] freshEngine) ''test''"
  by (simp_all add: test_defs)

lemma test_timeout:
  "isWaitingForAction (run 1 [Start (staleTour None)] freshEngine)"
  "\<not> isWaitingForAction (run 1 [Start (staleTour None), FireTimer 0] freshEngine)"
  by (simp_all add: test_defs staleTour_def)


end
